theory Spec2Isabelle
  imports Main "HOL-Library.Log_Nat" "HOL-Library.Product_Lexorder" "HOL-Library.AList"
begin

section \<open>Python values used by align\_lyrics.py\<close>

datatype py_error = ZeroDivisionError

text \<open>Integer floor division \<^verbatim>\<open>a // b\<close>: raises on a zero divisor.\<close>

definition py_floordiv :: "int \<Rightarrow> int \<Rightarrow> py_error + int" where
  "py_floordiv a b = (if b = 0 then Inl ZeroDivisionError else Inr (a div b))"

subsection \<open>Strings (ASCII)\<close>

text \<open>
  Strings are modelled over ASCII: \<^verbatim>\<open>\w\<close> is a letter, a digit or the underscore,
  \<^verbatim>\<open>lower\<close> and \<^verbatim>\<open>upper\<close> change the case of the 26 letters. Python's
  Unicode tables beyond ASCII are not modelled.
\<close>

definition is_word_char :: "char \<Rightarrow> bool" where
  "is_word_char c =
     (let n = (of_char c :: nat)
      in (48 \<le> n \<and> n \<le> 57) \<or> (65 \<le> n \<and> n \<le> 90) \<or> (97 \<le> n \<and> n \<le> 122) \<or> n = 95)"

definition lower_char :: "char \<Rightarrow> char" where
  "lower_char c =
     (let n = (of_char c :: nat) in if 65 \<le> n \<and> n \<le> 90 then char_of (n + 32) else c)"

definition upper_char :: "char \<Rightarrow> char" where
  "upper_char c =
     (let n = (of_char c :: nat) in if 97 \<le> n \<and> n \<le> 122 then char_of (n - 32) else c)"

definition lower :: "string \<Rightarrow> string" where
  "lower s = map lower_char s"

definition upper :: "string \<Rightarrow> string" where
  "upper s = map upper_char s"

text \<open>The character class \<^verbatim>\<open>[\w']\<close>: a word character or the apostrophe.\<close>

definition keep_char :: "char \<Rightarrow> bool" where
  "keep_char c = (is_word_char c \<or> c = CHR 0x27)"

text \<open>\<^verbatim>\<open>clean_word\<close>: \<^verbatim>\<open>re.sub(r'[^\w\']', '', word.lower())\<close>.\<close>

definition clean_word :: "string \<Rightarrow> string" where
  "clean_word w = filter keep_char (lower w)"

text \<open>
  \<^verbatim>\<open>re.finditer(r'[\w\']+', line)\<close>: the maximal runs of characters of the class, left
  to right; \<open>cur\<close> is the run being read.
\<close>

fun finditer :: "string \<Rightarrow> string \<Rightarrow> string list" where
  "finditer cur [] = (if cur = [] then [] else [cur])"
| "finditer cur (c # cs) =
     (if keep_char c then finditer (cur @ [c]) cs
      else if cur = [] then finditer [] cs
      else cur # finditer [] cs)"

text \<open>\<^verbatim>\<open>str.strip()\<close> on ASCII white space.\<close>

definition is_space :: "char \<Rightarrow> bool" where
  "is_space c = (let n = (of_char c :: nat) in n = 32 \<or> (9 \<le> n \<and> n \<le> 13) \<or> (28 \<le> n \<and> n \<le> 31))"

definition strip :: "string \<Rightarrow> string" where
  "strip s = rev (dropWhile is_space (rev (dropWhile is_space s)))"

text \<open>The decimal digits of a count, as an f-string prints it.\<close>

fun str_nat :: "nat \<Rightarrow> string" where
  "str_nat n =
     (if n < 10 then [char_of (48 + n)] else str_nat (n div 10) @ [char_of (48 + n mod 10)])"

declare str_nat.simps [simp del]

subsection \<open>Floats\<close>

text \<open>
  A Python float is an IEEE 754 binary64 number. The model is the rational value of the
  float; every arithmetic operation is the exact operation followed by rounding to the
  nearest binary64 value, ties to even (\<open>rnd64\<close>), with 53 significant bits and the
  subnormal spacing \<open>2 powi (- 1074)\<close>. Overflow to infinity and the sign of zero are
  not modelled.
\<close>

type_synonym pyfloat = rat

text \<open>Round to the nearest integer, ties to even.\<close>

definition rne :: "rat \<Rightarrow> int" where
  "rne x =
     (let f = \<lfloor>x\<rfloor>; d = x - of_int f
      in if d < 1 / 2 then f else if 1 / 2 < d then f + 1 else if even f then f else f + 1)"

text \<open>\<open>ilog2 x\<close> is the integer \<open>e\<close> with \<open>2 powi e \<le> x < 2 powi (e + 1)\<close>, for \<open>0 < x\<close>.\<close>

definition ilog2 :: "rat \<Rightarrow> int" where
  "ilog2 x = (if 1 \<le> x then bitlen \<lfloor>x\<rfloor> - 1 else - bitlen (\<lceil>1 / x\<rceil> - 1))"

definition rnd64 :: "rat \<Rightarrow> pyfloat" where
  "rnd64 x =
     (if x = 0 then 0
      else let e = max (ilog2 \<bar>x\<bar> - 52) (- 1074)
           in of_int (rne (x / 2 powi e)) * 2 powi e)"

definition fadd :: "pyfloat \<Rightarrow> pyfloat \<Rightarrow> pyfloat" where
  "fadd x y = rnd64 (x + y)"

definition fsub :: "pyfloat \<Rightarrow> pyfloat \<Rightarrow> pyfloat" where
  "fsub x y = rnd64 (x - y)"

definition fmul :: "pyfloat \<Rightarrow> pyfloat \<Rightarrow> pyfloat" where
  "fmul x y = rnd64 (x * y)"

definition fdiv :: "pyfloat \<Rightarrow> pyfloat \<Rightarrow> pyfloat" where
  "fdiv x y = rnd64 (x / y)"

text \<open>
  \<^verbatim>\<open>round(x, 2)\<close>: CPython rounds the exact value of the float to two decimals (ties to
  even) and returns the float nearest to that decimal.
\<close>

definition round2 :: "pyfloat \<Rightarrow> pyfloat" where
  "round2 x = rnd64 (of_int (rne (x * 100)) / 100)"

text \<open>\<^verbatim>\<open>int(x)\<close> of a float: the integer part, towards zero.\<close>

definition py_int :: "pyfloat \<Rightarrow> int" where
  "py_int x = (if 0 \<le> x then \<lfloor>x\<rfloor> else \<lceil>x\<rceil>)"

section \<open>The data model\<close>

text \<open>The dict \<^verbatim>\<open>{'original', 'clean', 'line'}\<close> of \<^verbatim>\<open>get_lyrics_words\<close>.\<close>

record lyrics_word =
  lw_original :: string
  lw_clean :: string
  lw_line :: nat

text \<open>A word of the transcription result: the keys \<^verbatim>\<open>word\<close>, \<^verbatim>\<open>start\<close>, \<^verbatim>\<open>end\<close>.\<close>

record word_info =
  wi_word :: string
  wi_start :: pyfloat
  wi_end :: pyfloat

text \<open>The dict \<^verbatim>\<open>{'word', 'clean', 'start', 'end'}\<close> appended to \<^verbatim>\<open>transcribed\<close>.\<close>

record transcribed_word =
  tw_word :: string
  tw_clean :: string
  tw_start :: pyfloat
  tw_end :: pyfloat

text \<open>
  An item of \<^verbatim>\<open>result_timings\<close>: the keys \<^verbatim>\<open>word\<close>, \<^verbatim>\<open>start\<close>, \<^verbatim>\<open>end\<close>, and the
  optional keys \<^verbatim>\<open>estimated\<close> and \<^verbatim>\<open>line\<close> (\<open>None\<close>: the key is absent).
\<close>

record timing =
  tm_word :: string
  tm_start :: pyfloat
  tm_end :: pyfloat
  tm_estimated :: "bool option"
  tm_line :: "nat option"

section \<open>get\_lyrics\_words and the transcribed words\<close>

text \<open>\<^verbatim>\<open>get_lyrics_words\<close>, from the lines of the lyrics file.\<close>

definition get_lyrics_words :: "string list \<Rightarrow> lyrics_word list" where
  "get_lyrics_words lines =
     concat (map (\<lambda>(line_num, line).
                    map (\<lambda>m. \<lparr>lw_original = m, lw_clean = clean_word m, lw_line = line_num\<rparr>)
                        (finditer [] line))
                 (enumerate 0 lines))"

text \<open>
  The loop over \<^verbatim>\<open>result["segments"]\<close> and their \<^verbatim>\<open>words\<close> that fills
  \<^verbatim>\<open>transcribed\<close>: a word that is empty after \<^verbatim>\<open>strip()\<close> is skipped.
\<close>

definition transcribed_of :: "word_info list list \<Rightarrow> transcribed_word list" where
  "transcribed_of segments =
     concat (map (\<lambda>words.
                    concat (map (\<lambda>wi. let word = strip (wi_word wi)
                                       in if word \<noteq> []
                                          then [\<lparr>tw_word = word, tw_clean = clean_word word,
                                                 tw_start = wi_start wi, tw_end = wi_end wi\<rparr>]
                                          else [])
                                words))
                 segments)"

section \<open>difflib.SequenceMatcher(None, a, b)\<close>

text \<open>
  \<^verbatim>\<open>align_lyrics\<close> builds its index map from
  \<^verbatim>\<open>SequenceMatcher(None, lyrics_clean, trans_clean).get_matching_blocks()\<close>. The
  definitions below follow CPython's \<^verbatim>\<open>difflib\<close>: no junk predicate (the set
  \<^verbatim>\<open>bjunk\<close> is empty, so the two loops that extend a match over junk never run), and
  the default \<^verbatim>\<open>autojunk\<close>, which drops the popular elements of a sequence of 200 or
  more elements from the index \<^verbatim>\<open>b2j\<close>.
\<close>

type_synonym block = "nat \<times> nat \<times> nat"

definition popular :: "'a list \<Rightarrow> 'a \<Rightarrow> bool" where
  "popular b elt = (200 \<le> length b \<and> length b div 100 + 1 < count_list b elt)"

text \<open>\<^verbatim>\<open>b2j.get(elt, [])\<close>: the indices of \<open>elt\<close> in \<open>b\<close>, increasing.\<close>

definition b2j :: "'a list \<Rightarrow> 'a \<Rightarrow> nat list" where
  "b2j b elt = (if popular b elt then [] else filter (\<lambda>j. b ! j = elt) [0..<length b])"

text \<open>\<^verbatim>\<open>j2len.get(j - 1, 0)\<close>; the key \<open>- 1\<close> (for \<open>j = 0\<close>) is never present.\<close>

definition j2lenget :: "(nat \<rightharpoonup> nat) \<Rightarrow> nat \<Rightarrow> nat" where
  "j2lenget j2len j = (if j = 0 then 0 else case j2len (j - 1) of None \<Rightarrow> 0 | Some v \<Rightarrow> v)"

text \<open>
  The inner loop of \<^verbatim>\<open>find_longest_match\<close> over the indices \<open>j\<close> of \<open>a[i]\<close> in
  \<open>b\<close>. The source computes \<open>i - k + 1\<close> on integers; \<open>k \<le> i + 1\<close> holds there
  (lemma \<open>flm_row_inv\<close>), so the subtraction on \<open>nat\<close> is the same number.
\<close>

fun flm_row ::
  "nat \<Rightarrow> nat \<Rightarrow> nat \<Rightarrow> (nat \<rightharpoonup> nat) \<Rightarrow> nat list \<Rightarrow> (nat \<rightharpoonup> nat) \<Rightarrow> block
    \<Rightarrow> (nat \<rightharpoonup> nat) \<times> block" where
  "flm_row i blo bhi j2len [] newj2len best = (newj2len, best)"
| "flm_row i blo bhi j2len (j # js) newj2len (besti, bestj, bestsize) =
     (if j < blo then flm_row i blo bhi j2len js newj2len (besti, bestj, bestsize)
      else if bhi \<le> j then (newj2len, (besti, bestj, bestsize))
      else let k = j2lenget j2len j + 1
           in flm_row i blo bhi j2len js (newj2len(j \<mapsto> k))
                (if bestsize < k then (i + 1 - k, j + 1 - k, k) else (besti, bestj, bestsize)))"

text \<open>The outer loop \<^verbatim>\<open>for i in range(alo, ahi)\<close>.\<close>

fun flm_rows ::
  "'a list \<Rightarrow> 'a list \<Rightarrow> nat \<Rightarrow> nat \<Rightarrow> nat list \<Rightarrow> (nat \<rightharpoonup> nat) \<Rightarrow> block \<Rightarrow> block" where
  "flm_rows a b blo bhi [] j2len best = best"
| "flm_rows a b blo bhi (i # is) j2len best =
     (case flm_row i blo bhi j2len (b2j b (a ! i)) Map.empty best of
        (newj2len, best') \<Rightarrow> flm_rows a b blo bhi is newj2len best')"

text \<open>The two loops that extend the best match by equal elements on each side.\<close>

function extend_left :: "'a list \<Rightarrow> 'a list \<Rightarrow> nat \<Rightarrow> nat \<Rightarrow> block \<Rightarrow> block" where
  "extend_left a b alo blo (besti, bestj, bestsize) =
     (if alo < besti \<and> blo < bestj \<and> a ! (besti - 1) = b ! (bestj - 1)
      then extend_left a b alo blo (besti - 1, bestj - 1, bestsize + 1)
      else (besti, bestj, bestsize))"
  by pat_completeness auto
termination
  by (relation "measure (\<lambda>(a, b, alo, blo, besti, bestj, bestsize). besti)") auto

function extend_right :: "'a list \<Rightarrow> 'a list \<Rightarrow> nat \<Rightarrow> nat \<Rightarrow> block \<Rightarrow> block" where
  "extend_right a b ahi bhi (besti, bestj, bestsize) =
     (if besti + bestsize < ahi \<and> bestj + bestsize < bhi
         \<and> a ! (besti + bestsize) = b ! (bestj + bestsize)
      then extend_right a b ahi bhi (besti, bestj, bestsize + 1)
      else (besti, bestj, bestsize))"
  by pat_completeness auto
termination
  by (relation "measure (\<lambda>(a, b, ahi, bhi, besti, bestj, bestsize). ahi - (besti + bestsize))") auto

declare extend_left.simps [simp del] extend_right.simps [simp del]

definition find_longest_match :: "'a list \<Rightarrow> 'a list \<Rightarrow> nat \<Rightarrow> nat \<Rightarrow> nat \<Rightarrow> nat \<Rightarrow> block" where
  "find_longest_match a b alo ahi blo bhi =
     extend_right a b ahi bhi
       (extend_left a b alo blo
          (flm_rows a b blo bhi [alo..<ahi] Map.empty (alo, blo, 0)))"

subsection \<open>The match found lies inside the window\<close>

text \<open>
  The invariant of \<^verbatim>\<open>find_longest_match\<close>: the best match starts inside the window
  \<open>[alo, ahi) \<times> [blo, bhi)\<close> and, unless it is the empty match at the window's corner,
  ends inside it.
\<close>

definition best_ok :: "nat \<Rightarrow> nat \<Rightarrow> nat \<Rightarrow> nat \<Rightarrow> block \<Rightarrow> bool" where
  "best_ok alo ahi blo bhi best =
     (case best of (i, j, k) \<Rightarrow>
        alo \<le> i \<and> blo \<le> j \<and> (k = 0 \<and> i = alo \<and> j = blo \<or> i + k \<le> ahi \<and> j + k \<le> bhi))"

text \<open>
  The invariant of \<^verbatim>\<open>j2len\<close>: a recorded length \<open>v\<close> of a match ending at
  \<open>(n - 1, j)\<close> fits between the window's corner and that end.
\<close>

definition j2len_ok :: "nat \<Rightarrow> nat \<Rightarrow> nat \<Rightarrow> (nat \<rightharpoonup> nat) \<Rightarrow> bool" where
  "j2len_ok alo blo n j2len = (\<forall>j v. j2len j = Some v \<longrightarrow> v \<le> n - alo \<and> v + blo \<le> j + 1)"

lemma j2lenget_bound:
  assumes "j2len_ok alo blo i j2len" "alo \<le> i" "blo \<le> j"
  shows "j2lenget j2len j + 1 \<le> i + 1 - alo \<and> j2lenget j2len j + 1 + blo \<le> j + 1"
proof (cases "j = 0")
  case True
  with assms show ?thesis by (simp add: j2lenget_def)
next
  case False
  show ?thesis
  proof (cases "j2len (j - 1)")
    case None
    with False assms show ?thesis by (simp add: j2lenget_def)
  next
    case (Some v)
    with assms(1) have "v \<le> i - alo \<and> v + blo \<le> (j - 1) + 1"
      unfolding j2len_ok_def by blast
    then have "v + 1 \<le> i + 1 - alo \<and> v + 1 + blo \<le> j + 1"
      using False assms(2) by arith
    with False Some show ?thesis by (simp add: j2lenget_def)
  qed
qed

lemma flm_row_inv:
  assumes "alo \<le> i" "i < ahi" "j2len_ok alo blo i j2len"
  shows "j2len_ok alo blo (i + 1) newj2len \<Longrightarrow> best_ok alo ahi blo bhi best \<Longrightarrow>
         flm_row i blo bhi j2len js newj2len best = (n', best') \<Longrightarrow>
         j2len_ok alo blo (i + 1) n' \<and> best_ok alo ahi blo bhi best'"
proof (induction js arbitrary: newj2len best)
  case Nil
  then show ?case by simp
next
  case (Cons j js)
  obtain bi bj bs where best: "best = (bi, bj, bs)" by (cases best)
  show ?case
  proof (cases "j < blo")
    case True
    with Cons best show ?thesis by simp
  next
    case lo: False
    show ?thesis
    proof (cases "bhi \<le> j")
      case True
      with lo Cons best show ?thesis by auto
    next
      case hi: False
      define k where "k = j2lenget j2len j + 1"
      have kb: "k \<le> i + 1 - alo \<and> k + blo \<le> j + 1"
        using j2lenget_bound[OF assms(3) assms(1), of j] lo by (simp add: k_def)
      have k1: "1 \<le> k" by (simp add: k_def)
      let ?nj = "newj2len(j \<mapsto> k)"
      let ?nb = "if bs < k then (i + 1 - k, j + 1 - k, k) else (bi, bj, bs)"
      have 1: "j2len_ok alo blo (i + 1) ?nj"
        using Cons.prems(1) kb by (auto simp: j2len_ok_def)
      have 2: "best_ok alo ahi blo bhi ?nb"
        using Cons.prems(2) kb k1 assms(1,2) hi lo best by (auto simp: best_ok_def)
      have "flm_row i blo bhi j2len (j # js) newj2len (bi, bj, bs) =
              flm_row i blo bhi j2len js ?nj ?nb"
        using lo hi unfolding k_def by (simp only: flm_row.simps Let_def if_False)
      then have 3: "flm_row i blo bhi j2len js ?nj ?nb = (n', best')"
        using Cons.prems(3) best by simp
      from Cons.IH[OF 1 2 3] show ?thesis .
    qed
  qed
qed

lemma flm_rows_inv:
  "alo \<le> i \<Longrightarrow> j2len_ok alo blo i j2len \<Longrightarrow> best_ok alo ahi blo bhi best \<Longrightarrow>
   best_ok alo ahi blo bhi (flm_rows a b blo bhi [i..<ahi] j2len best)"
proof (induction "ahi - i" arbitrary: i j2len best)
  case 0
  then show ?case by simp
next
  case (Suc n)
  then have lt: "i < ahi" by simp
  obtain n' best' where r: "flm_row i blo bhi j2len (b2j b (a ! i)) Map.empty best = (n', best')"
    by (cases "flm_row i blo bhi j2len (b2j b (a ! i)) Map.empty best")
  have e: "j2len_ok alo blo (i + 1) Map.empty" by (simp add: j2len_ok_def)
  from flm_row_inv[OF Suc.prems(1) lt Suc.prems(2) e Suc.prems(3) r]
  have inv: "j2len_ok alo blo (i + 1) n'" "best_ok alo ahi blo bhi best'" by simp_all
  have "best_ok alo ahi blo bhi (flm_rows a b blo bhi [Suc i..<ahi] n' best')"
    using Suc.hyps(1)[of "Suc i" n' best'] Suc.hyps(2) Suc.prems(1) inv by simp
  with lt r show ?case by (simp add: upt_conv_Cons)
qed

lemma extend_left_inv:
  "best_ok alo ahi blo bhi best \<Longrightarrow> best_ok alo ahi blo bhi (extend_left a b alo blo best)"
proof (induction a b alo blo best rule: extend_left.induct)
  case (1 a b alo blo besti bestj bestsize)
  show ?case
  proof (cases "alo < besti \<and> blo < bestj \<and> a ! (besti - 1) = b ! (bestj - 1)")
    case True
    have "best_ok alo ahi blo bhi (besti - 1, bestj - 1, bestsize + 1)"
      using "1.prems" True by (auto simp: best_ok_def)
    then have "best_ok alo ahi blo bhi (extend_left a b alo blo (besti - 1, bestj - 1, bestsize + 1))"
      using "1.IH" True by blast
    with True show ?thesis by (subst extend_left.simps) simp
  next
    case False
    with "1.prems" show ?thesis by (subst extend_left.simps) auto
  qed
qed

lemma extend_right_inv:
  "best_ok alo ahi blo bhi best \<Longrightarrow> best_ok alo ahi blo bhi (extend_right a b ahi bhi best)"
proof (induction a b ahi bhi best rule: extend_right.induct)
  case (1 a b ahi bhi besti bestj bestsize)
  show ?case
  proof (cases "besti + bestsize < ahi \<and> bestj + bestsize < bhi
         \<and> a ! (besti + bestsize) = b ! (bestj + bestsize)")
    case True
    have "best_ok alo ahi blo bhi (besti, bestj, bestsize + 1)"
      using "1.prems" True by (auto simp: best_ok_def)
    then have "best_ok alo ahi blo bhi (extend_right a b ahi bhi (besti, bestj, bestsize + 1))"
      using "1.IH" True by blast
    with True show ?thesis by (subst extend_right.simps) simp
  next
    case False
    with "1.prems" show ?thesis by (subst extend_right.simps) auto
  qed
qed

lemma find_longest_match_ok:
  "best_ok alo ahi blo bhi (find_longest_match a b alo ahi blo bhi)"
proof -
  have 0: "best_ok alo ahi blo bhi (alo, blo, 0)" by (simp add: best_ok_def)
  have 1: "j2len_ok alo blo alo Map.empty" by (simp add: j2len_ok_def)
  show ?thesis
    unfolding find_longest_match_def
    by (intro extend_right_inv extend_left_inv flm_rows_inv 0 1 order_refl)
qed

lemma find_longest_match_bounds:
  assumes "find_longest_match a b alo ahi blo bhi = (i, j, k)" "k \<noteq> 0"
  shows "alo \<le> i \<and> blo \<le> j \<and> i + k \<le> ahi \<and> j + k \<le> bhi"
  using find_longest_match_ok[of alo ahi blo bhi a b] assms by (simp add: best_ok_def)

subsection \<open>get\_matching\_blocks\<close>

text \<open>
  The work list \<^verbatim>\<open>queue\<close> of windows \<open>(alo, ahi, blo, bhi)\<close>. The head of the
  list is the element \<^verbatim>\<open>queue.pop()\<close> takes, so the window appended last is in
  front. \<open>window_size\<close> is the measure of the loop's termination.
\<close>

type_synonym window = "nat \<times> nat \<times> nat \<times> nat"

definition window_size :: "window \<Rightarrow> nat" where
  "window_size w = (case w of (alo, ahi, blo, bhi) \<Rightarrow> 2 * (ahi - alo) + 1)"

function gmb_loop :: "'a list \<Rightarrow> 'a list \<Rightarrow> window list \<Rightarrow> block list \<Rightarrow> block list" where
  "gmb_loop a b [] matching_blocks = matching_blocks"
| "gmb_loop a b ((alo, ahi, blo, bhi) # queue) matching_blocks =
     (case find_longest_match a b alo ahi blo bhi of
        (i, j, k) \<Rightarrow>
          if k = 0 then gmb_loop a b queue matching_blocks
          else gmb_loop a b
                 ((if i + k < ahi \<and> j + k < bhi then [(i + k, ahi, j + k, bhi)] else []) @
                  (if alo < i \<and> blo < j then [(alo, i, blo, j)] else []) @ queue)
                 (matching_blocks @ [(i, j, k)]))"
  by pat_completeness auto
termination
proof (relation "measure (\<lambda>(a, b, queue, blocks). sum_list (map window_size queue))", goal_cases)
  case 1
  show ?case by simp
next
  case 2
  then show ?case by (simp add: window_size_def)
next
  case (3 a b alo ahi blo bhi queue matching_blocks i y j k)
  then have "find_longest_match a b alo ahi blo bhi = (i, j, k)" by simp
  from find_longest_match_bounds[OF this \<open>k \<noteq> 0\<close>]
  have "alo \<le> i \<and> blo \<le> j \<and> i + k \<le> ahi \<and> j + k \<le> bhi" .
  with \<open>k \<noteq> 0\<close> show ?case
    by (auto simp: window_size_def)
qed

declare gmb_loop.simps [simp del]

text \<open>
  The loop that merges adjacent blocks of the sorted list; \<open>(i1, j1, k1)\<close> is the block
  being grown, and the result is \<^verbatim>\<open>non_adjacent\<close>.
\<close>

fun collapse :: "block \<Rightarrow> block list \<Rightarrow> block list" where
  "collapse (i1, j1, k1) [] = (if k1 \<noteq> 0 then [(i1, j1, k1)] else [])"
| "collapse (i1, j1, k1) ((i2, j2, k2) # rest) =
     (if i1 + k1 = i2 \<and> j1 + k1 = j2 then collapse (i1, j1, k1 + k2) rest
      else (if k1 \<noteq> 0 then [(i1, j1, k1)] else []) @ collapse (i2, j2, k2) rest)"

text \<open>
  \<^verbatim>\<open>matching_blocks.sort()\<close> orders the triples lexicographically; the last block is
  the sentinel \<open>(la, lb, 0)\<close>.
\<close>

definition get_matching_blocks :: "'a list \<Rightarrow> 'a list \<Rightarrow> block list" where
  "get_matching_blocks a b =
     collapse (0, 0, 0) (sort (gmb_loop a b [(0, length a, 0, length b)] []))
       @ [(length a, length b, 0)]"

section \<open>align\_lyrics\<close>

text \<open>
  The loop over one matching block that fills \<^verbatim>\<open>lyrics_to_trans\<close>; \<open>n_lyrics\<close> and
  \<open>n_trans\<close> are \<^verbatim>\<open>len(lyrics_words)\<close> and \<^verbatim>\<open>len(transcribed)\<close>.
\<close>

definition map_block :: "nat \<Rightarrow> nat \<Rightarrow> block \<Rightarrow> (nat \<rightharpoonup> nat) \<Rightarrow> (nat \<rightharpoonup> nat)" where
  "map_block n_lyrics n_trans blk m =
     (case blk of (lyrics_start, trans_start, sz) \<Rightarrow>
        fold (\<lambda>i m. let lyrics_idx = lyrics_start + i; trans_idx = trans_start + i
                     in if lyrics_idx < n_lyrics \<and> trans_idx < n_trans
                        then m(lyrics_idx \<mapsto> trans_idx) else m)
             [0..<sz] m)"

definition lyrics_to_trans :: "string list \<Rightarrow> string list \<Rightarrow> (nat \<rightharpoonup> nat)" where
  "lyrics_to_trans lyrics_clean trans_clean =
     fold (map_block (length lyrics_clean) (length trans_clean))
          (get_matching_blocks lyrics_clean trans_clean) Map.empty"

text \<open>
  \<^verbatim>\<open>for j in range(i - 1, -1, -1)\<close>: the end of the nearest matched word before \<open>i\<close>,
  or the initial \<^verbatim>\<open>prev_time = 0\<close>.
\<close>

fun find_prev :: "(nat \<rightharpoonup> nat) \<Rightarrow> transcribed_word list \<Rightarrow> nat \<Rightarrow> pyfloat" where
  "find_prev m transcribed 0 = 0"
| "find_prev m transcribed (Suc j) =
     (case m j of Some t \<Rightarrow> tw_end (transcribed ! t) | None \<Rightarrow> find_prev m transcribed j)"

text \<open>
  \<^verbatim>\<open>for j in range(i + 1, len(lyrics_words))\<close>: the start of the nearest matched word
  after \<open>i\<close>, or the initial \<^verbatim>\<open>next_time = None\<close>.
\<close>

fun find_next :: "(nat \<rightharpoonup> nat) \<Rightarrow> transcribed_word list \<Rightarrow> nat list \<Rightarrow> pyfloat option" where
  "find_next m transcribed [] = None"
| "find_next m transcribed (j # js) =
     (case m j of Some t \<Rightarrow> Some (tw_start (transcribed ! t)) | None \<Rightarrow> find_next m transcribed js)"

text \<open>The estimate of an unmatched word; \<open>0.3\<close> and \<open>0.2\<close> are float literals.\<close>

definition est_time :: "pyfloat \<Rightarrow> pyfloat option \<Rightarrow> pyfloat" where
  "est_time prev_time next_time =
     (case next_time of
        Some nt \<Rightarrow> fdiv (fadd prev_time nt) 2
      | None \<Rightarrow> fadd prev_time (rnd64 (3 / 10)))"

text \<open>The body of \<^verbatim>\<open>for i, lw in enumerate(lyrics_words)\<close>: the item appended for \<open>i\<close>.\<close>

definition word_timing ::
  "(nat \<rightharpoonup> nat) \<Rightarrow> lyrics_word list \<Rightarrow> transcribed_word list \<Rightarrow> nat \<Rightarrow> timing" where
  "word_timing m lyrics_words transcribed i =
     (let lw = lyrics_words ! i
      in case m i of
           Some trans_idx \<Rightarrow>
             let tw = transcribed ! trans_idx
             in \<lparr>tm_word = lw_original lw, tm_start = round2 (tw_start tw),
                 tm_end = round2 (tw_end tw), tm_estimated = None,
                 tm_line = Some (lw_line lw)\<rparr>
         | None \<Rightarrow>
             let prev_time = find_prev m transcribed i;
                 next_time = find_next m transcribed [i + 1..<length lyrics_words];
                 est = est_time prev_time next_time
             in \<lparr>tm_word = lw_original lw, tm_start = round2 est,
                 tm_end = round2 (fadd est (rnd64 (2 / 10))), tm_estimated = Some True,
                 tm_line = Some (lw_line lw)\<rparr>)"

definition result_timings ::
  "(nat \<rightharpoonup> nat) \<Rightarrow> lyrics_word list \<Rightarrow> transcribed_word list \<Rightarrow> timing list" where
  "result_timings m lyrics_words transcribed =
     map (word_timing m lyrics_words transcribed) [0..<length lyrics_words]"

text \<open>
  \<^verbatim>\<open>align_lyrics\<close> from the lyrics words and the transcribed words on. After the
  timings are built, the function formats the match rate
  \<^verbatim>\<open>100*matched//len(lyrics_words)\<close> for its last message, and returns the timings
  only when that does not raise.
\<close>

definition align_lyrics :: "lyrics_word list \<Rightarrow> transcribed_word list \<Rightarrow> py_error + timing list" where
  "align_lyrics lyrics_words transcribed =
     (let lyrics_clean = map lw_clean lyrics_words;
          trans_clean = map tw_clean transcribed;
          m = lyrics_to_trans lyrics_clean trans_clean;
          timings = result_timings m lyrics_words transcribed;
          matched = length (filter (\<lambda>i. m i \<noteq> None) [0..<length lyrics_words])
      in case py_floordiv (100 * int matched) (int (length lyrics_words)) of
           Inl e \<Rightarrow> Inl e
         | Inr percent \<Rightarrow> Inr timings)"

section \<open>format\_output\<close>

text \<open>A value of the simple map: a float (seconds) or an int (milliseconds).\<close>

datatype pynum = PyFloat pyfloat | PyInt int

text \<open>The dict built by the milliseconds branch of the flat format: exactly three keys.\<close>

record ms_timing =
  ms_word :: string
  ms_start :: int
  ms_end :: int

datatype formatted =
    Simple "(string \<times> pynum) list"
  | FlatMs "ms_timing list"
  | Flat "timing list"

text \<open>
  The loop of the simple format. \<^verbatim>\<open>result\<close> is a dict: an association list in
  insertion order, where storing under a key already present replaces its value.
\<close>

fun simple_loop ::
  "bool \<Rightarrow> timing list \<Rightarrow> (string \<times> pynum) list \<Rightarrow> (string \<rightharpoonup> nat) \<Rightarrow> (string \<times> pynum) list" where
  "simple_loop use_milliseconds [] result word_count = result"
| "simple_loop use_milliseconds (item # items) result word_count =
     (let clean = clean_word (tm_word item)
      in if clean = [] then simple_loop use_milliseconds items result word_count
         else let (word_count', key) =
                    (case word_count clean of
                       Some c \<Rightarrow> (word_count(clean \<mapsto> c + 1), clean @ ''_'' @ str_nat (c + 1))
                     | None \<Rightarrow> (word_count(clean \<mapsto> 1), clean));
                  time_val = (if use_milliseconds then PyInt (py_int (fmul (tm_start item) 1000))
                              else PyFloat (tm_start item))
              in simple_loop use_milliseconds items (AList.update key time_val result) word_count')"

definition format_output :: "timing list \<Rightarrow> bool \<Rightarrow> bool \<Rightarrow> formatted" where
  "format_output word_timings use_milliseconds simple =
     (if simple then Simple (simple_loop use_milliseconds word_timings [] Map.empty)
      else if use_milliseconds
      then FlatMs (map (\<lambda>item. \<lparr>ms_word = tm_word item,
                                  ms_start = py_int (fmul (tm_start item) 1000),
                                  ms_end = py_int (fmul (tm_end item) 1000)\<rparr>) word_timings)
      else Flat word_timings)"

section \<open>format\_reactive\<close>

text \<open>An element of \<^verbatim>\<open>words_array\<close>.\<close>

record word_obj =
  wo_font :: string
  wo_color :: string
  wo_time :: pyfloat
  wo_text :: string

text \<open>
  A line record. The source stores \<^verbatim>\<open>json.dumps(words_array)\<close> under \<^verbatim>\<open>text\<close>; the
  model keeps the array itself. \<open>lo_subtitle = None\<close>: the key \<^verbatim>\<open>subtitle\<close> is absent.
\<close>

record line_obj =
  lo_text :: "word_obj list"
  lo_isJson :: bool
  lo_locked :: bool
  lo_seconds :: pyfloat
  lo_subtitle :: "string option"

text \<open>\<^verbatim>\<open>word.get('line', 0)\<close>.\<close>

definition line_of :: "timing \<Rightarrow> nat" where
  "line_of word = (case tm_line word of None \<Rightarrow> 0 | Some l \<Rightarrow> l)"

text \<open>The grouping loop; \<^verbatim>\<open>lines\<close> is a dict from line number to the list of its words.\<close>

fun group_lines :: "timing list \<Rightarrow> (nat \<times> timing list) list \<Rightarrow> (nat \<times> timing list) list" where
  "group_lines [] lines = lines"
| "group_lines (word # words) lines =
     (let line_num = line_of word;
          lines' = (if map_of lines line_num = None then AList.update line_num [] lines else lines);
          cur = (case map_of lines' line_num of None \<Rightarrow> [] | Some ws \<Rightarrow> ws)
      in group_lines words (AList.update line_num (cur @ [word]) lines'))"

text \<open>The loop over the words of a line; \<open>prev_start\<close> is threaded through.\<close>

fun words_array :: "string \<Rightarrow> string \<Rightarrow> pyfloat \<Rightarrow> timing list \<Rightarrow> word_obj list" where
  "words_array font color prev_start [] = []"
| "words_array font color prev_start (word # words) =
     \<lparr>wo_font = font, wo_color = color,
      wo_time = round2 (fsub (tm_start word) prev_start),
      wo_text = upper (tm_word word)\<rparr>
     # words_array font color (tm_start word) words"

text \<open>The body of the loop over the sorted line numbers: the records it appends.\<close>

definition line_record ::
  "string \<Rightarrow> string \<Rightarrow> string list option \<Rightarrow> nat \<Rightarrow> timing list \<Rightarrow> line_obj list" where
  "line_record font color subtitles line_num line_words =
     (case line_words of
        [] \<Rightarrow> []
      | first # _ \<Rightarrow>
          let line_start = tm_start first
          in [\<lparr>lo_text = words_array font color line_start line_words,
               lo_isJson = True, lo_locked = True, lo_seconds = line_start,
               lo_subtitle =
                 (case subtitles of
                    None \<Rightarrow> None
                  | Some subs \<Rightarrow>
                      if subs \<noteq> [] \<and> line_num < length subs
                      then Some (upper (subs ! line_num)) else None)\<rparr>])"

definition format_reactive ::
  "timing list \<Rightarrow> string \<Rightarrow> string \<Rightarrow> string list option \<Rightarrow> line_obj list" where
  "format_reactive word_timings font color subtitles =
     (let lines = group_lines word_timings []
      in concat (map (\<lambda>line_num.
                        line_record font color subtitles line_num
                          (case map_of lines line_num of None \<Rightarrow> [] | Some ws \<Rightarrow> ws))
                     (sort (map fst lines))))"

section \<open>Notions of the specification and of the proofs\<close>

subsection \<open>Blocks and windows\<close>

text \<open>
  \<open>cells bs\<close> are the index pairs on the diagonals of the blocks \<open>bs\<close>: the pairs the
  loop of \<^verbatim>\<open>align_lyrics\<close> stores. A block \<open>(i, j, k)\<close> covers the window
  \<open>[i, i + k) \<times> [j, j + k)\<close>. Every window the work list holds and every block found
  so far are pairwise separated: one lies before the other in both coordinates.
\<close>

definition cells :: "block list \<Rightarrow> (nat \<times> nat) set" where
  "cells bs = {(i + t, j + t) | i j k t. (i, j, k) \<in> set bs \<and> t < k}"

definition rect :: "block \<Rightarrow> window" where
  "rect blk = (case blk of (i, j, k) \<Rightarrow> (i, i + k, j, j + k))"

definition before :: "window \<Rightarrow> window \<Rightarrow> bool" where
  "before w v = (case w of (alo, ahi, blo, bhi) \<Rightarrow> case v of (alo', ahi', blo', bhi') \<Rightarrow>
                   ahi \<le> alo' \<and> bhi \<le> blo')"

definition sep :: "window \<Rightarrow> window \<Rightarrow> bool" where
  "sep w v = (before w v \<or> before v w)"

definition inside :: "window \<Rightarrow> window \<Rightarrow> bool" where
  "inside w v = (case w of (alo, ahi, blo, bhi) \<Rightarrow> case v of (alo', ahi', blo', bhi') \<Rightarrow>
                   alo' \<le> alo \<and> ahi \<le> ahi' \<and> blo' \<le> blo \<and> bhi \<le> bhi')"

fun all_sep :: "window list \<Rightarrow> bool" where
  "all_sep [] = True"
| "all_sep (w # ws) = (list_all (sep w) ws \<and> all_sep ws)"

text \<open>The index pairs are strictly increasing.\<close>

definition mono_cells :: "(nat \<times> nat) set \<Rightarrow> bool" where
  "mono_cells S = (\<forall>i1 j1 i2 j2. (i1, j1) \<in> S \<and> (i2, j2) \<in> S \<and> i1 < i2 \<longrightarrow> j1 < j2)"

subsection \<open>The interpolator\<close>

text \<open>
  The interpolator as the specification words it. \<open>spec_prev_time\<close>: the end of the
  nearest matched word before \<open>i\<close>, or 0 when no word before \<open>i\<close> is matched.
  \<open>spec_next_time\<close>: the start of the nearest matched word after \<open>i\<close>, or none.
  \<open>spec_entry\<close>: the entry emitted for the estimate, every operation a float operation.
\<close>

definition spec_prev_time :: "(nat \<rightharpoonup> nat) \<Rightarrow> transcribed_word list \<Rightarrow> nat \<Rightarrow> pyfloat \<Rightarrow> bool" where
  "spec_prev_time m transcribed i prev_time =
     ((\<forall>p<i. m p = None) \<and> prev_time = 0
      \<or> (\<exists>p t. p < i \<and> m p = Some t \<and> (\<forall>q. p < q \<and> q < i \<longrightarrow> m q = None)
                 \<and> prev_time = tw_end (transcribed ! t)))"

definition spec_next_time ::
  "(nat \<rightharpoonup> nat) \<Rightarrow> transcribed_word list \<Rightarrow> nat \<Rightarrow> nat \<Rightarrow> pyfloat option \<Rightarrow> bool" where
  "spec_next_time m transcribed n i next_time =
     ((\<forall>q. i < q \<and> q < n \<longrightarrow> m q = None) \<and> next_time = None
      \<or> (\<exists>q t. i < q \<and> q < n \<and> m q = Some t \<and> (\<forall>p. i < p \<and> p < q \<longrightarrow> m p = None)
                 \<and> next_time = Some (tw_start (transcribed ! t))))"

definition spec_entry :: "lyrics_word \<Rightarrow> pyfloat \<Rightarrow> pyfloat option \<Rightarrow> timing" where
  "spec_entry lw prev_time next_time =
     (let est = (case next_time of
                   Some nt \<Rightarrow> rnd64 (rnd64 (prev_time + nt) / 2)
                 | None \<Rightarrow> rnd64 (prev_time + rnd64 (3 / 10)))
      in \<lparr>tm_word = lw_original lw, tm_start = round2 est,
          tm_end = round2 (rnd64 (est + rnd64 (2 / 10))), tm_estimated = Some True,
          tm_line = Some (lw_line lw)\<rparr>)"

subsection \<open>The reactive format\<close>

text \<open>
  The reactive format as the specification words it. \<open>spec_deltas\<close>: the first delta is
  0, every later one is the word's start minus the previous word's start, rounded to two
  decimals. \<open>spec_line\<close>: the record of line \<open>l\<close>, from the words of that line in their
  order; its \<open>seconds\<close> is the start of the first of them, and the subtitle is present
  only when \<open>l\<close> is an index of the subtitle sequence.
\<close>

definition spec_deltas :: "pyfloat list \<Rightarrow> pyfloat list" where
  "spec_deltas starts =
     (case starts of
        [] \<Rightarrow> []
      | s # ss \<Rightarrow> 0 # map (\<lambda>(prev, cur). round2 (rnd64 (cur - prev))) (zip (s # ss) ss))"

definition spec_line ::
  "timing list \<Rightarrow> string \<Rightarrow> string \<Rightarrow> string list option \<Rightarrow> nat \<Rightarrow> line_obj" where
  "spec_line word_timings font color subtitles l =
     (let ws = filter (\<lambda>w. line_of w = l) word_timings
      in \<lparr>lo_text = map (\<lambda>(w, d). \<lparr>wo_font = font, wo_color = color, wo_time = d,
                                     wo_text = upper (tm_word w)\<rparr>)
                         (zip ws (spec_deltas (map tm_start ws))),
          lo_isJson = True, lo_locked = True,
          lo_seconds = tm_start (hd ws),
          lo_subtitle = (case subtitles of
                           None \<Rightarrow> None
                         | Some subs \<Rightarrow> if l < length subs then Some (upper (subs ! l)) else None)\<rparr>)"

text \<open>\<^verbatim>\<open>lines[l]\<close>, with the empty list for an absent key.\<close>

definition lookup_words :: "(nat \<times> timing list) list \<Rightarrow> nat \<Rightarrow> timing list" where
  "lookup_words lines l = (case map_of lines l of None \<Rightarrow> [] | Some ws \<Rightarrow> ws)"

subsection \<open>The simple format\<close>

text \<open>
  The simple format as the specification words it. \<open>simple_key earlier clean\<close>: the
  bare word when it has not occurred among the earlier words, and the word with the suffix
  \<open>_n\<close> for its \<open>n\<close>-th occurrence otherwise. \<open>simple_pairs\<close>: for every word that is
  not empty after normalizing, in order, its key and its start time.
\<close>

definition simple_key :: "string list \<Rightarrow> string \<Rightarrow> string" where
  "simple_key earlier clean =
     (let n = count_list earlier clean
      in if n = 0 then clean else clean @ ''_'' @ str_nat (n + 1))"

definition simple_pairs :: "timing list \<Rightarrow> (string \<times> pyfloat) list" where
  "simple_pairs word_timings =
     concat (map (\<lambda>i. let clean = clean_word (tm_word (word_timings ! i))
                       in if clean = [] then []
                          else [(simple_key (map (\<lambda>w. clean_word (tm_word w)) (take i word_timings))
                                            clean,
                                 tm_start (word_timings ! i))])
                 [0..<length word_timings])"

text \<open>The conversion of a stored value to milliseconds.\<close>

definition to_ms :: "pynum \<Rightarrow> pynum" where
  "to_ms v = (case v of PyFloat t \<Rightarrow> PyInt (py_int (fmul t 1000)) | PyInt n \<Rightarrow> PyInt n)"

text \<open>Storing pairs, in order, into a dict.\<close>

definition store_all :: "(string \<times> pynum) list \<Rightarrow> (string \<times> pynum) list \<Rightarrow> (string \<times> pynum) list" where
  "store_all pairs result = fold (\<lambda>(k, v). AList.update k v) pairs result"

text \<open>
  \<open>simple_pairs\<close> after the words \<open>pre\<close>, and the counter \<^verbatim>\<open>word_count\<close> the loop holds
  after them.
\<close>

definition pairs_from :: "string list \<Rightarrow> timing list \<Rightarrow> (string \<times> pyfloat) list" where
  "pairs_from pre items =
     concat (map (\<lambda>i. let clean = clean_word (tm_word (items ! i))
                       in if clean = [] then []
                          else [(simple_key (pre @ map (\<lambda>w. clean_word (tm_word w)) (take i items))
                                            clean,
                                 tm_start (items ! i))])
                 [0..<length items])"

definition wc_of :: "string list \<Rightarrow> (string \<rightharpoonup> nat)" where
  "wc_of pre = (\<lambda>c. if c = [] \<or> count_list pre c = 0 then None else Some (count_list pre c))"

subsection \<open>Floats and valid transcriptions\<close>

text \<open>\<open>expo64 x\<close> is the exponent of the last bit of the float nearest to \<open>x\<close>.\<close>

definition expo64 :: "rat \<Rightarrow> int" where
  "expo64 x = max (ilog2 \<bar>x\<bar> - 52) (- 1074)"

text \<open>
  A transcribed word as the data model has it: its times are floats with
  \<open>0 \<le> start \<le> end\<close>, and at most \<open>2 powi 45\<close> seconds. \<open>in_range m n\<close>: every
  index the map yields is an index of the transcription.
\<close>

definition valid_word :: "transcribed_word \<Rightarrow> bool" where
  "valid_word w =
     (rnd64 (tw_start w) = tw_start w \<and> rnd64 (tw_end w) = tw_end w
      \<and> 0 \<le> tw_start w \<and> tw_start w \<le> tw_end w \<and> tw_end w \<le> 2 powi 45)"

definition in_range :: "(nat \<rightharpoonup> nat) \<Rightarrow> nat \<Rightarrow> bool" where
  "in_range m n = (\<forall>i j. m i = Some j \<longrightarrow> j < n)"

section \<open>Properties of align\_lyrics\<close>

subsection \<open>Empty lyrics\<close>

lemma find_longest_match_empty_a: "find_longest_match [] b 0 0 0 bhi = (0, 0, 0)"
  by (simp add: find_longest_match_def extend_left.simps extend_right.simps)

lemma get_matching_blocks_empty_a: "get_matching_blocks [] b = [(0, length b, 0)]"
  by (simp add: get_matching_blocks_def gmb_loop.simps find_longest_match_empty_a)

lemma lyrics_to_trans_empty: "lyrics_to_trans [] trans_clean = Map.empty"
  by (simp add: lyrics_to_trans_def get_matching_blocks_empty_a map_block_def)

lemma align_lyrics_Inr:
  "lyrics_words \<noteq> [] \<Longrightarrow>
   align_lyrics lyrics_words transcribed =
     Inr (result_timings (lyrics_to_trans (map lw_clean lyrics_words) (map tw_clean transcribed))
            lyrics_words transcribed)"
  by (simp add: align_lyrics_def py_floordiv_def Let_def)

lemma align_lyrics_Nil: "align_lyrics [] transcribed = Inl ZeroDivisionError"
  by (simp add: align_lyrics_def py_floordiv_def Let_def)

text \<open>
  Claim C1 (the run on lyrics with zero tokens completes without a division by zero, with
  an empty correspondence map and an empty timing sequence). On the code the map and the
  timings are indeed empty, but the match rate \<^verbatim>\<open>100*matched//len(lyrics_words)\<close> is
  computed with no guard, so \<^verbatim>\<open>align_lyrics\<close> raises \<^verbatim>\<open>ZeroDivisionError\<close> and
  returns nothing, whatever the transcription.
\<close>

theorem empty_lyrics_raises:
  "lyrics_to_trans (map lw_clean []) (map tw_clean transcribed) = Map.empty
   \<and> result_timings Map.empty [] transcribed = []
   \<and> align_lyrics [] transcribed = Inl ZeroDivisionError"
  by (simp add: lyrics_to_trans_empty result_timings_def align_lyrics_Nil)

subsection \<open>The formats on concrete inputs\<close>

text \<open>
  Claim C2 (simple format: later occurrences of a normalized word get the keys
  \<open>w_2\<close>, \<open>w_3\<close>, ..., and no two entries ever end up under one key). The lyrics line
  \<^verbatim>\<open>go go_2 go\<close> has three words, none empty after normalizing; the second \<^verbatim>\<open>go\<close> gets
  the key \<^verbatim>\<open>go_2\<close>, which the word \<^verbatim>\<open>go_2\<close> already holds, and replaces its time: the
  map has two keys.
\<close>

theorem simple_keys_collide:
  "map lw_original (get_lyrics_words [''go go_2 go'']) = [''go'', ''go_2'', ''go'']
   \<and> format_output
        [\<lparr>tm_word = ''go'', tm_start = 1, tm_end = 2, tm_estimated = None, tm_line = Some 0\<rparr>,
         \<lparr>tm_word = ''go_2'', tm_start = 3, tm_end = 4, tm_estimated = None, tm_line = Some 0\<rparr>,
         \<lparr>tm_word = ''go'', tm_start = 5, tm_end = 6, tm_estimated = None, tm_line = Some 0\<rparr>]
        False True
      = Simple [(''go'', PyFloat 1), (''go_2'', PyFloat 5)]"
  by code_simp

text \<open>
  Claim C4 (flat format: \<^verbatim>\<open>estimated\<close> and \<^verbatim>\<open>line\<close> pass through, also when the
  times are converted to milliseconds). With the milliseconds flag the code builds a new
  dict of the three keys \<^verbatim>\<open>word\<close>, \<^verbatim>\<open>start\<close>, \<^verbatim>\<open>end\<close> for every item: an estimated
  entry of line 3 comes out with neither \<^verbatim>\<open>estimated\<close> nor \<^verbatim>\<open>line\<close>.
\<close>

theorem flat_ms_drops_fields:
  "format_output
     [\<lparr>tm_word = ''b'', tm_start = rnd64 (65 / 100), tm_end = rnd64 (85 / 100),
       tm_estimated = Some True, tm_line = Some 3\<rparr>] True False
   = FlatMs [\<lparr>ms_word = ''b'', ms_start = 650, ms_end = 850\<rparr>]"
  by code_simp

subsection \<open>One timing per lyrics word\<close>

lemma word_timing_word: "tm_word (word_timing m lw tr i) = lw_original (lw ! i)"
  by (simp add: word_timing_def Let_def split: option.splits)

lemma word_timing_line: "tm_line (word_timing m lw tr i) = Some (lw_line (lw ! i))"
  by (simp add: word_timing_def Let_def split: option.splits)

lemma word_timing_estimated:
  "tm_estimated (word_timing m lw tr i) = (if m i = None then Some True else None)"
  by (simp add: word_timing_def Let_def split: option.splits)

lemma result_timings_words:
  "map tm_word (result_timings m lw tr) = map lw_original lw"
  by (rule nth_equalityI) (simp_all add: result_timings_def word_timing_word)

lemma result_timings_lines:
  "map tm_line (result_timings m lw tr) = map (\<lambda>w. Some (lw_line w)) lw"
  by (rule nth_equalityI) (simp_all add: result_timings_def word_timing_line)

text \<open>
  Claim C8: the timing sequence has exactly the length of the lyrics word sequence, one
  entry per lyrics word in lyrics order (the entry of index \<open>i\<close> carries the original
  word and the line of lyrics word \<open>i\<close>), whatever the transcription and the
  correspondence map. \<^verbatim>\<open>align_lyrics\<close> returns that sequence, unless the lyrics are
  empty, where it raises (claim C1).
\<close>

theorem one_timing_per_lyrics_word:
  "length (result_timings m lyrics_words transcribed) = length lyrics_words
   \<and> map tm_word (result_timings m lyrics_words transcribed) = map lw_original lyrics_words
   \<and> map tm_line (result_timings m lyrics_words transcribed)
       = map (\<lambda>w. Some (lw_line w)) lyrics_words
   \<and> (case align_lyrics lyrics_words transcribed of
         Inl e \<Rightarrow> lyrics_words = []
       | Inr timings \<Rightarrow>
           length timings = length lyrics_words
           \<and> map tm_word timings = map lw_original lyrics_words)"
proof (cases "lyrics_words = []")
  case True
  then show ?thesis by (simp add: align_lyrics_Nil result_timings_def)
next
  case False
  then show ?thesis
    by (simp add: align_lyrics_Inr result_timings_words result_timings_lines)
       (simp add: result_timings_def)
qed

text \<open>
  Claim C10: an entry of a matched lyrics word has no \<^verbatim>\<open>estimated\<close> key, an entry of
  an unmatched word has \<^verbatim>\<open>estimated\<close> = True, and no entry has \<^verbatim>\<open>estimated\<close> = False.
\<close>

theorem estimated_only_true:
  "map tm_estimated (result_timings m lyrics_words transcribed)
     = map (\<lambda>i. if m i = None then Some True else None) [0..<length lyrics_words]
   \<and> Some False \<notin> set (map tm_estimated (result_timings m lyrics_words transcribed))
   \<and> (case align_lyrics lyrics_words transcribed of
         Inl e \<Rightarrow> True
       | Inr timings \<Rightarrow> Some False \<notin> set (map tm_estimated timings))"
proof -
  have 1: "map tm_estimated (result_timings m lyrics_words transcribed)
     = map (\<lambda>i. if m i = None then Some True else None) [0..<length lyrics_words]" for m
    by (simp add: result_timings_def word_timing_estimated)
  have 2: "Some False \<notin> set (map tm_estimated (result_timings m lyrics_words transcribed))" for m
    unfolding 1 by (auto split: if_splits)
  show ?thesis
  proof (cases "lyrics_words = []")
    case True
    with 1 2 show ?thesis by (simp add: align_lyrics_Nil)
  next
    case False
    with 1[of m] 2[of m] 2 show ?thesis by (simp add: align_lyrics_Inr del: set_map)
  qed
qed

subsection \<open>Milliseconds\<close>

lemma py_int_trunc:
  "\<bar>of_int (py_int x)\<bar> \<le> \<bar>x\<bar> \<and> \<bar>x\<bar> < \<bar>of_int (py_int x)\<bar> + 1 \<and> 0 \<le> of_int (py_int x) * x"
proof (cases "0 \<le> x")
  case True
  then have "0 \<le> \<lfloor>x\<rfloor>" by simp
  with True show ?thesis by (simp add: py_int_def) linarith
next
  case False
  then have c: "\<lceil>x\<rceil> \<le> 0" by (simp add: ceiling_le_iff)
  then have c': "(of_int \<lceil>x\<rceil> :: rat) \<le> 0" by simp
  have 1: "x \<le> of_int \<lceil>x\<rceil>" and 2: "of_int \<lceil>x\<rceil> < x + 1" by linarith+
  have 3: "0 \<le> of_int \<lceil>x\<rceil> * x"
    using c' False by (intro mult_nonpos_nonpos) simp_all
  have "\<bar>of_int \<lceil>x\<rceil> :: rat\<bar> = - of_int \<lceil>x\<rceil>" "\<bar>x\<bar> = - x"
    using c' False by simp_all
  with 1 2 3 False show ?thesis by (simp add: py_int_def)
qed

lemma update_values:
  "set (map snd (AList.update k v al)) \<subseteq> insert v (set (map snd al))"
  by (induction al) auto

lemma simple_loop_values:
  "set (map snd (simple_loop True items result word_count))
     \<subseteq> set (map snd result) \<union> (\<lambda>item. PyInt (py_int (fmul (tm_start item) 1000))) ` set items"
proof (induction items arbitrary: result word_count)
  case Nil
  then show ?case by simp
next
  case (Cons item items)
  let ?v = "PyInt (py_int (fmul (tm_start item) 1000))"
  let ?V = "(\<lambda>item. PyInt (py_int (fmul (tm_start item) 1000))) ` set items"
  show ?case
  proof (cases "clean_word (tm_word item) = []")
    case True
    with Cons.IH[of result word_count] show ?thesis by auto
  next
    case False
    obtain key wc where
      step: "simple_loop True (item # items) result word_count
               = simple_loop True items (AList.update key ?v result) wc"
      using False by (cases "word_count (clean_word (tm_word item))") (simp_all add: Let_def)
    have "set (map snd (simple_loop True items (AList.update key ?v result) wc))
            \<subseteq> set (map snd (AList.update key ?v result)) \<union> ?V"
      by (rule Cons.IH)
    also have "\<dots> \<subseteq> insert ?v (set (map snd result)) \<union> ?V"
      using update_values[of key ?v result] by blast
    finally show ?thesis unfolding step by auto
  qed
qed

lemma pairs_from_Nil: "pairs_from pre [] = []"
  by (simp add: pairs_from_def)

lemma pairs_from_Cons:
  "pairs_from pre (x # xs) =
     (if clean_word (tm_word x) = [] then []
      else [(simple_key pre (clean_word (tm_word x)), tm_start x)])
     @ pairs_from (pre @ [clean_word (tm_word x)]) xs"
proof -
  have upt: "[0..<length (x # xs)] = 0 # map Suc [0..<length xs]"
    by (simp add: upt_conv_Cons map_Suc_upt del: upt_Suc)
  show ?thesis
    unfolding pairs_from_def upt
    by (simp add: comp_def Let_def del: upt_Suc cong del: if_weak_cong)
qed

lemma simple_pairs_from: "simple_pairs ts = pairs_from [] ts"
  by (simp add: simple_pairs_def pairs_from_def Let_def cong del: if_weak_cong)

lemma wc_of_snoc_empty: "wc_of (pre @ [[]]) = wc_of pre"
  by (auto simp: wc_of_def fun_eq_iff)

lemma wc_of_snoc:
  "c \<noteq> [] \<Longrightarrow> wc_of (pre @ [c]) = (wc_of pre)(c \<mapsto> count_list pre c + 1)"
  by (auto simp: wc_of_def fun_eq_iff)

lemma simple_loop_pairs:
  "simple_loop ms items result (wc_of pre)
     = store_all (map (\<lambda>(k, t). (k, if ms then PyInt (py_int (fmul t 1000)) else PyFloat t))
                      (pairs_from pre items)) result"
proof (induction items arbitrary: result pre)
  case Nil
  then show ?case by (simp add: pairs_from_Nil store_all_def)
next
  case (Cons x xs)
  let ?c = "clean_word (tm_word x)"
  let ?v = "if ms then PyInt (py_int (fmul (tm_start x) 1000)) else PyFloat (tm_start x)"
  show ?case
  proof (cases "?c = []")
    case True
    then have "simple_loop ms (x # xs) result (wc_of pre)
                 = simple_loop ms xs result (wc_of (pre @ [?c]))"
      by (simp add: wc_of_snoc_empty)
    also have "\<dots> = store_all (map (\<lambda>(k, t). (k, if ms then PyInt (py_int (fmul t 1000)) else PyFloat t))
                      (pairs_from (pre @ [?c]) xs)) result"
      by (rule Cons.IH)
    finally show ?thesis using True by (simp add: pairs_from_Cons)
  next
    case False
    have "simple_loop ms (x # xs) result (wc_of pre)
            = simple_loop ms xs (AList.update (simple_key pre ?c) ?v result) (wc_of (pre @ [?c]))"
    proof (cases "count_list pre ?c = 0")
      case True
      with False have "wc_of pre ?c = None" by (simp add: wc_of_def)
      with False True show ?thesis
        by (simp add: Let_def wc_of_snoc simple_key_def)
    next
      case nz: False
      with False have "wc_of pre ?c = Some (count_list pre ?c)" by (simp add: wc_of_def)
      with False nz show ?thesis
        by (simp add: Let_def wc_of_snoc simple_key_def)
    qed
    also have "\<dots> = store_all (map (\<lambda>(k, t). (k, if ms then PyInt (py_int (fmul t 1000)) else PyFloat t))
                      (pairs_from (pre @ [?c]) xs)) (AList.update (simple_key pre ?c) ?v result)"
      by (rule Cons.IH)
    finally show ?thesis using False by (simp add: pairs_from_Cons store_all_def)
  qed
qed

lemma wc_of_Nil: "wc_of [] = Map.empty"
  by (simp add: wc_of_def fun_eq_iff)

lemma format_output_simple:
  "format_output word_timings ms True
     = Simple (store_all (map (\<lambda>(k, t). (k, if ms then PyInt (py_int (fmul t 1000)) else PyFloat t))
                              (simple_pairs word_timings)) [])"
  using simple_loop_pairs[of ms word_timings "[]" "[]"]
  by (simp add: format_output_def wc_of_Nil simple_pairs_from)

lemma map_update_values:
  "map (\<lambda>(k, v). (k, f v)) (AList.update k v al) = AList.update k (f v) (map (\<lambda>(k, v). (k, f v)) al)"
  by (induction al) auto

lemma map_store_all:
  "map (\<lambda>(k, v). (k, f v)) (store_all ps al)
     = store_all (map (\<lambda>(k, v). (k, f v)) ps) (map (\<lambda>(k, v). (k, f v)) al)"
  unfolding store_all_def
  by (induction ps arbitrary: al) (auto simp: map_update_values)

lemma simple_ms_of_seconds:
  "simple_loop True word_timings [] Map.empty
     = map (\<lambda>(k, v). (k, to_ms v)) (simple_loop False word_timings [] Map.empty)"
proof -
  let ?ps = "pairs_from [] word_timings"
  have "map (\<lambda>(k, v). (k, to_ms v)) (simple_loop False word_timings [] Map.empty)
          = map (\<lambda>(k, v). (k, to_ms v)) (store_all (map (\<lambda>(k, t). (k, PyFloat t)) ?ps) [])"
    using simple_loop_pairs[of False word_timings "[]" "[]"] by (simp add: wc_of_Nil)
  also have "\<dots> = store_all (map (\<lambda>(k, v). (k, to_ms v)) (map (\<lambda>(k, t). (k, PyFloat t)) ?ps)) []"
    by (simp only: map_store_all list.map)
  also have "map (\<lambda>(k, v). (k, to_ms v)) (map (\<lambda>(k, t). (k, PyFloat t)) ?ps)
               = map (\<lambda>(k, t). (k, PyInt (py_int (fmul t 1000)))) ?ps"
    by (simp add: to_ms_def split_def)
  also have "store_all (map (\<lambda>(k, t). (k, PyInt (py_int (fmul t 1000)))) ?ps) []
               = simple_loop True word_timings [] Map.empty"
    using simple_loop_pairs[of True word_timings "[]" "[]"] by (simp add: wc_of_Nil)
  finally show ?thesis by simp
qed

text \<open>
  Claim C3: with the milliseconds flag, \<^verbatim>\<open>format_output\<close> converts every time it
  writes by \<^verbatim>\<open>int(seconds * 1000)\<close>, the float product cut towards zero. In the flat
  format these are the start and the end of every item. In the simple format the map is
  the one the specification's pairs give, each start converted; it is the seconds map with
  every value converted. \<open>py_int\<close> never rounds up in magnitude. The floats \<open>1.239\<close> and
  \<open>1.2395\<close> both give \<open>1239\<close>, in either format; the second product is exactly
  \<open>1239.5\<close>, so rounding would give another number.
\<close>

theorem milliseconds_truncate:
  "format_output word_timings True False
     = FlatMs (map (\<lambda>item. \<lparr>ms_word = tm_word item,
                              ms_start = py_int (fmul (tm_start item) 1000),
                              ms_end = py_int (fmul (tm_end item) 1000)\<rparr>) word_timings)
   \<and> format_output word_timings True True
       = Simple (store_all (map (\<lambda>(k, t). (k, PyInt (py_int (fmul t 1000))))
                                (simple_pairs word_timings)) [])
   \<and> format_output word_timings False True
       = Simple (store_all (map (\<lambda>(k, t). (k, PyFloat t)) (simple_pairs word_timings)) [])
   \<and> format_output word_timings True True
       = (case format_output word_timings False True of
            Simple result \<Rightarrow> Simple (map (\<lambda>(k, v). (k, to_ms v)) result)
          | FlatMs xs \<Rightarrow> FlatMs xs
          | Flat xs \<Rightarrow> Flat xs)
   \<and> (case format_output word_timings True True of
         Simple result \<Rightarrow>
           set (map snd result)
             \<subseteq> (\<lambda>item. PyInt (py_int (fmul (tm_start item) 1000))) ` set word_timings
       | FlatMs xs \<Rightarrow> False
       | Flat xs \<Rightarrow> False)
   \<and> \<bar>of_int (py_int x)\<bar> \<le> \<bar>x\<bar> \<and> \<bar>x\<bar> < \<bar>of_int (py_int x)\<bar> + 1 \<and> 0 \<le> of_int (py_int x) * x
   \<and> py_int (fmul (rnd64 (1239 / 1000)) 1000) = 1239
   \<and> py_int (fmul (rnd64 (12395 / 10000)) 1000) = 1239
   \<and> fmul (rnd64 (12395 / 10000)) 1000 = 2479 / 2
   \<and> format_output
        [\<lparr>tm_word = ''One'', tm_start = rnd64 (1239 / 1000), tm_end = rnd64 (2479 / 2000),
          tm_estimated = None, tm_line = Some 0\<rparr>,
         \<lparr>tm_word = ''two'', tm_start = rnd64 (2479 / 2000), tm_end = rnd64 (3 / 2),
          tm_estimated = None, tm_line = Some 0\<rparr>] True True
      = Simple [(''one'', PyInt 1239), (''two'', PyInt 1239)]
   \<and> format_output
        [\<lparr>tm_word = ''One'', tm_start = rnd64 (1239 / 1000), tm_end = rnd64 (2479 / 2000),
          tm_estimated = None, tm_line = Some 0\<rparr>,
         \<lparr>tm_word = ''two'', tm_start = rnd64 (2479 / 2000), tm_end = rnd64 (3 / 2),
          tm_estimated = None, tm_line = Some 0\<rparr>] True False
      = FlatMs [\<lparr>ms_word = ''One'', ms_start = 1239, ms_end = 1239\<rparr>,
                \<lparr>ms_word = ''two'', ms_start = 1239, ms_end = 1500\<rparr>]"
proof -
  have a: "py_int (fmul (rnd64 (1239 / 1000)) 1000) = 1239" by code_simp
  have b: "py_int (fmul (rnd64 (12395 / 10000)) 1000) = 1239" by code_simp
  have c: "fmul (rnd64 (12395 / 10000)) 1000 = 2479 / 2" by code_simp
  have d: "format_output
        [\<lparr>tm_word = ''One'', tm_start = rnd64 (1239 / 1000), tm_end = rnd64 (2479 / 2000),
          tm_estimated = None, tm_line = Some 0\<rparr>,
         \<lparr>tm_word = ''two'', tm_start = rnd64 (2479 / 2000), tm_end = rnd64 (3 / 2),
          tm_estimated = None, tm_line = Some 0\<rparr>] True True
      = Simple [(''one'', PyInt 1239), (''two'', PyInt 1239)]" by code_simp
  have e: "format_output
        [\<lparr>tm_word = ''One'', tm_start = rnd64 (1239 / 1000), tm_end = rnd64 (2479 / 2000),
          tm_estimated = None, tm_line = Some 0\<rparr>,
         \<lparr>tm_word = ''two'', tm_start = rnd64 (2479 / 2000), tm_end = rnd64 (3 / 2),
          tm_estimated = None, tm_line = Some 0\<rparr>] True False
      = FlatMs [\<lparr>ms_word = ''One'', ms_start = 1239, ms_end = 1239\<rparr>,
                \<lparr>ms_word = ''two'', ms_start = 1239, ms_end = 1500\<rparr>]" by code_simp
  have f: "format_output word_timings True False
     = FlatMs (map (\<lambda>item. \<lparr>ms_word = tm_word item,
                              ms_start = py_int (fmul (tm_start item) 1000),
                              ms_end = py_int (fmul (tm_end item) 1000)\<rparr>) word_timings)"
    by (simp add: format_output_def)
  have g: "format_output word_timings True True
       = Simple (store_all (map (\<lambda>(k, t). (k, PyInt (py_int (fmul t 1000))))
                                (simple_pairs word_timings)) [])"
    using format_output_simple[of word_timings True] by simp
  have h: "format_output word_timings False True
       = Simple (store_all (map (\<lambda>(k, t). (k, PyFloat t)) (simple_pairs word_timings)) [])"
    using format_output_simple[of word_timings False] by simp
  have i: "format_output word_timings True True
       = (case format_output word_timings False True of
            Simple result \<Rightarrow> Simple (map (\<lambda>(k, v). (k, to_ms v)) result)
          | FlatMs xs \<Rightarrow> FlatMs xs
          | Flat xs \<Rightarrow> Flat xs)"
    by (simp add: format_output_def simple_ms_of_seconds)
  have j: "(case format_output word_timings True True of
         Simple result \<Rightarrow>
           set (map snd result)
             \<subseteq> (\<lambda>item. PyInt (py_int (fmul (tm_start item) 1000))) ` set word_timings
       | FlatMs xs \<Rightarrow> False
       | Flat xs \<Rightarrow> False)"
    using simple_loop_values[of word_timings "[]" Map.empty] by (simp add: format_output_def)
  from a b c d e f g h i j py_int_trunc[of x] show ?thesis by blast
qed

subsection \<open>The correspondence map is strictly increasing\<close>

lemma sep_sym: "sep w v = sep v w"
  by (auto simp: sep_def)

lemma sep_inside: "inside w' w \<Longrightarrow> sep w v \<Longrightarrow> sep w' v"
  by (auto simp: sep_def inside_def before_def split: prod.splits)

lemma all_sep_append:
  "all_sep (xs @ ys) = (all_sep xs \<and> all_sep ys \<and> (\<forall>x\<in>set xs. \<forall>y\<in>set ys. sep x y))"
  by (induction xs) (auto simp: list_all_iff)

lemma all_sep_mem:
  "all_sep ws \<Longrightarrow> x \<in> set ws \<Longrightarrow> y \<in> set ws \<Longrightarrow> x = y \<or> sep x y"
  by (induction ws) (auto simp: list_all_iff sep_sym)

lemma sep_symD: "sep w v \<Longrightarrow> sep v w"
  by (simp add: sep_def disj_commute)

lemma all_sep_swap: "all_sep (xs @ [x] @ ys) \<Longrightarrow> all_sep (xs @ ys @ [x])"
  unfolding all_sep_append by (simp add: list_all_iff) (blast intro: sep_symD)

lemma gmb_loop_sep:
  "all_sep (queue @ map rect acc) \<Longrightarrow> all_sep (map rect (gmb_loop a b queue acc))"
proof (induction a b queue acc rule: gmb_loop.induct)
  case (1 a b matching_blocks)
  then show ?case by (simp add: gmb_loop.simps)
next
  case (2 a b alo ahi blo bhi queue matching_blocks)
  obtain i j k where flm: "find_longest_match a b alo ahi blo bhi = (i, j, k)"
    by (cases "find_longest_match a b alo ahi blo bhi")
  let ?w = "(alo, ahi, blo, bhi)"
  let ?rest = "queue @ map rect matching_blocks"
  from "2.prems" have rest: "all_sep ?rest" and w: "\<forall>v\<in>set ?rest. sep ?w v"
    by (simp_all add: list_all_iff)
  show ?case
  proof (cases "k = 0")
    case True
    with "2.IH"(1)[OF flm[symmetric] refl True] rest flm show ?thesis
      by (simp add: gmb_loop.simps)
  next
    case False
    from find_longest_match_bounds[OF flm False]
    have b: "alo \<le> i" "blo \<le> j" "i + k \<le> ahi" "j + k \<le> bhi" by simp_all
    let ?R = "if i + k < ahi \<and> j + k < bhi then [(i + k, ahi, j + k, bhi)] else []"
    let ?L = "if alo < i \<and> blo < j then [(alo, i, blo, j)] else []"
    let ?X = "rect (i, j, k)"
    have in_w: "\<forall>v\<in>set (?R @ ?L @ [?X]). inside v ?w"
      using b by (auto simp: inside_def rect_def)
    have new: "all_sep (?R @ ?L @ [?X])"
      using b by (auto simp: sep_def before_def rect_def)
    have cross: "\<forall>x\<in>set (?R @ ?L @ [?X]). \<forall>y\<in>set ?rest. sep x y"
      using in_w w sep_inside by blast
    have "all_sep ((?R @ ?L @ [?X]) @ ?rest)"
      using new rest cross by (subst all_sep_append) blast
    then have "all_sep ((?R @ ?L) @ [?X] @ ?rest)" by simp
    then have "all_sep ((?R @ ?L) @ ?rest @ [?X])" by (rule all_sep_swap)
    then have "all_sep ((?R @ ?L @ queue) @ map rect (matching_blocks @ [(i, j, k)]))"
      by simp
    from "2.IH"(2)[OF flm[symmetric] refl False this] flm False show ?thesis
      by (simp add: gmb_loop.simps)
  qed
qed

lemma all_sep_mono_cells:
  assumes "all_sep (map rect bs)"
  shows "mono_cells (cells bs)"
  unfolding mono_cells_def
proof (intro allI impI, elim conjE)
  fix i1 j1 i2 j2
  assume c1: "(i1, j1) \<in> cells bs" and c2: "(i2, j2) \<in> cells bs" and lt: "i1 < i2"
  from c1 obtain a1 b1 k1 t1 where x1: "(a1, b1, k1) \<in> set bs" "t1 < k1" "i1 = a1 + t1" "j1 = b1 + t1"
    by (auto simp: cells_def)
  from c2 obtain a2 b2 k2 t2 where x2: "(a2, b2, k2) \<in> set bs" "t2 < k2" "i2 = a2 + t2" "j2 = b2 + t2"
    by (auto simp: cells_def)
  have "rect (a1, b1, k1) \<in> set (map rect bs)" "rect (a2, b2, k2) \<in> set (map rect bs)"
    using x1(1) x2(1) by auto
  from all_sep_mem[OF assms this]
  have "rect (a1, b1, k1) = rect (a2, b2, k2) \<or> sep (rect (a1, b1, k1)) (rect (a2, b2, k2))" .
  then show "j1 < j2"
    using x1 x2 lt by (auto simp: rect_def sep_def before_def)
qed

lemma cells_Nil: "cells [] = {}"
  by (simp add: cells_def)

lemma cells_Cons: "cells ((i, j, k) # bs) = {(i + t, j + t) | t. t < k} \<union> cells bs"
  by (auto simp: cells_def)

lemma cells_append: "cells (xs @ ys) = cells xs \<union> cells ys"
  by (auto simp: cells_def)

lemma diagonal_split:
  "{(i + t, j + t) | t. t < k1 + k2}
     = {(i + t, j + t) | t. t < k1} \<union> {(i + k1 + t, j + k1 + t) | t. t < (k2::nat)}"
proof -
  have "\<And>t. t < k1 + k2 \<Longrightarrow> t < k1 \<or> (\<exists>s<k2. t = k1 + s)"
    by (metis add_diff_inverse_nat nat_add_left_cancel_less)
  then show ?thesis by (fastforce simp: add.assoc)
qed

lemma cells_collapse: "cells (collapse x xs) = cells (x # xs)"
proof (induction x xs rule: collapse.induct)
  case (1 i1 j1 k1)
  then show ?case by (auto simp: cells_Cons cells_Nil)
next
  case (2 i1 j1 k1 i2 j2 k2 rest)
  show ?case
  proof (cases "i1 + k1 = i2 \<and> j1 + k1 = j2")
    case True
    then have "cells (collapse (i1, j1, k1) ((i2, j2, k2) # rest))
                 = cells ((i1, j1, k1 + k2) # rest)"
      using "2.IH"(1) by simp
    also have "\<dots> = cells ((i1, j1, k1) # (i2, j2, k2) # rest)"
      using True by (auto simp: cells_Cons diagonal_split)
    finally show ?thesis .
  next
    case False
    then have "collapse (i1, j1, k1) ((i2, j2, k2) # rest)
                 = (if k1 \<noteq> 0 then [(i1, j1, k1)] else []) @ collapse (i2, j2, k2) rest"
      by (simp only: collapse.simps if_False)
    then have "cells (collapse (i1, j1, k1) ((i2, j2, k2) # rest))
                 = cells (if k1 \<noteq> 0 then [(i1, j1, k1)] else []) \<union> cells ((i2, j2, k2) # rest)"
      using "2.IH"(2)[OF False] by (simp only: cells_append)
    also have "cells (if k1 \<noteq> 0 then [(i1, j1, k1)] else []) = cells [(i1, j1, k1)]"
      by (auto simp: cells_Cons cells_Nil)
    finally show ?thesis by (simp add: cells_Cons cells_Nil)
  qed
qed

lemma cells_get_matching_blocks:
  "cells (get_matching_blocks a b) = cells (gmb_loop a b [(0, length a, 0, length b)] [])"
proof -
  have srt: "cells (sort xs) = cells xs" for xs
    by (simp add: cells_def)
  show ?thesis
    by (simp add: get_matching_blocks_def cells_append cells_collapse cells_Cons cells_Nil srt)
qed

lemma mono_get_matching_blocks: "mono_cells (cells (get_matching_blocks a b))"
proof -
  have "all_sep ([(0, length a, 0, length b)] @ map rect [])" by simp
  then have "all_sep (map rect (gmb_loop a b [(0, length a, 0, length b)] []))"
    by (rule gmb_loop_sep)
  then show ?thesis
    by (simp add: cells_get_matching_blocks all_sep_mono_cells)
qed

lemma map_block_cells:
  "map_block nl nt blk m i = Some j \<Longrightarrow> m i = Some j \<or> ((i, j) \<in> cells [blk] \<and> i < nl \<and> j < nt)"
proof -
  obtain ls ts sz where blk: "blk = (ls, ts, sz)" by (cases blk)
  let ?f = "\<lambda>i m. let lyrics_idx = ls + i; trans_idx = ts + i
                     in if lyrics_idx < nl \<and> trans_idx < nt
                        then m(lyrics_idx \<mapsto> trans_idx) else m"
  have "fold ?f [0..<n] m i = Some j \<Longrightarrow>
        m i = Some j \<or> ((\<exists>t<n. i = ls + t \<and> j = ts + t) \<and> i < nl \<and> j < nt)" for n
  proof (induction n)
    case 0
    then show ?case by simp
  next
    case (Suc n)
    then show ?case
      by (auto simp: Let_def less_Suc_eq split: if_splits)
  qed
  then show "map_block nl nt blk m i = Some j \<Longrightarrow> ?thesis"
    unfolding blk map_block_def cells_def by fastforce
qed

lemma fold_map_block_cells:
  "fold (map_block nl nt) bs m i = Some j \<Longrightarrow>
   m i = Some j \<or> ((i, j) \<in> cells bs \<and> i < nl \<and> j < nt)"
proof (induction bs arbitrary: m)
  case Nil
  then show ?case by simp
next
  case (Cons blk bs)
  have cons: "cells (blk # bs) = cells [blk] \<union> cells bs"
    by (auto simp: cells_def)
  from Cons.prems have "fold (map_block nl nt) bs (map_block nl nt blk m) i = Some j" by simp
  from Cons.IH[OF this] show ?case
    using map_block_cells[of nl nt blk m i j] by (auto simp: cons)
qed

lemma lyrics_to_trans_cells:
  "lyrics_to_trans a b i = Some j \<Longrightarrow>
   (i, j) \<in> cells (get_matching_blocks a b) \<and> i < length a \<and> j < length b"
  using fold_map_block_cells[of "length a" "length b" "get_matching_blocks a b" Map.empty i j]
  by (simp add: lyrics_to_trans_def)

lemma lyrics_to_trans_mono:
  "lyrics_to_trans a b i1 = Some j1 \<Longrightarrow> lyrics_to_trans a b i2 = Some j2 \<Longrightarrow> i1 < i2 \<Longrightarrow> j1 < j2"
  using mono_get_matching_blocks[of a b] lyrics_to_trans_cells[of a b]
  unfolding mono_cells_def by blast

text \<open>
  Claim C6: the correspondence map \<^verbatim>\<open>lyrics_to_trans\<close> is strictly increasing in both
  coordinates, for every pair of input sequences: two mapped pairs \<open>(i1, j1)\<close> and
  \<open>(i2, j2)\<close> with \<open>i1 < i2\<close> have \<open>j1 < j2\<close>; so the map is injective.
\<close>

theorem correspondence_strictly_increasing:
  "lyrics_to_trans lyrics_clean trans_clean i1 = Some j1 \<Longrightarrow>
   lyrics_to_trans lyrics_clean trans_clean i2 = Some j2 \<Longrightarrow>
   (i1 < i2 \<longrightarrow> j1 < j2) \<and> (j1 = j2 \<longrightarrow> i1 = i2)"
  using lyrics_to_trans_mono[of lyrics_clean trans_clean i1 j1 i2 j2]
        lyrics_to_trans_mono[of lyrics_clean trans_clean i2 j2 i1 j1]
  by (cases i1 i2 rule: linorder_cases) auto

theorem correspondence_strictly_increasing_witness:
  "lyrics_to_trans [''a'', ''b'', ''c''] [''a'', ''c''] 0 = Some 0
   \<and> lyrics_to_trans [''a'', ''b'', ''c''] [''a'', ''c''] 2 = Some 1
   \<and> (0::nat) < 2 \<and> (0::nat) < 1"
proof -
  have h1: "lyrics_to_trans [''a'', ''b'', ''c''] [''a'', ''c''] 0 = Some 0" by code_simp
  have h2: "lyrics_to_trans [''a'', ''b'', ''c''] [''a'', ''c''] 2 = Some 1" by code_simp
  from correspondence_strictly_increasing[OF h1 h2] have "(0::nat) < 1" by simp
  with h1 h2 show ?thesis by simp
qed

subsection \<open>The interpolator\<close>

lemma find_prev_spec: "spec_prev_time m transcribed i (find_prev m transcribed i)"
proof (induction i)
  case 0
  then show ?case by (simp add: spec_prev_time_def)
next
  case (Suc i)
  show ?case
  proof (cases "m i")
    case None
    from Suc consider
        (none) "\<forall>p<i. m p = None" "find_prev m transcribed i = 0"
      | (some) p t where "p < i" "m p = Some t" "\<forall>q. p < q \<and> q < i \<longrightarrow> m q = None"
          "find_prev m transcribed i = tw_end (transcribed ! t)"
      unfolding spec_prev_time_def by blast
    then show ?thesis
    proof cases
      case none
      with None have "\<forall>p<Suc i. m p = None" by (auto simp: less_Suc_eq)
      with none None show ?thesis by (simp add: spec_prev_time_def)
    next
      case some
      with None have "\<forall>q. p < q \<and> q < Suc i \<longrightarrow> m q = None" by (auto simp: less_Suc_eq)
      with some None show ?thesis
        unfolding spec_prev_time_def by - (rule disjI2, rule exI[of _ p], rule exI[of _ t], simp)
    qed
  next
    case (Some t)
    then show ?thesis
      unfolding spec_prev_time_def by - (rule disjI2, rule exI[of _ i], rule exI[of _ t], auto)
  qed
qed

lemma find_next_spec_aux:
  "i < a \<Longrightarrow> \<forall>p. i < p \<and> p < a \<longrightarrow> m p = None \<Longrightarrow>
   spec_next_time m transcribed n i (find_next m transcribed [a..<n])"
proof (induction "n - a" arbitrary: a)
  case 0
  then have e: "[a..<n] = []" and le: "n \<le> a" by simp_all
  from le 0 have "\<forall>q. i < q \<and> q < n \<longrightarrow> m q = None" by auto
  then show ?case unfolding e spec_next_time_def by simp
next
  case (Suc k)
  then have lt: "a < n" by simp
  then have upt: "[a..<n] = a # [Suc a..<n]" by (simp add: upt_conv_Cons)
  show ?case
  proof (cases "m a")
    case None
    with Suc.prems have "\<forall>p. i < p \<and> p < Suc a \<longrightarrow> m p = None" by (auto simp: less_Suc_eq)
    moreover have "k = n - Suc a" "i < Suc a" using Suc.hyps(2) Suc.prems(1) by simp_all
    ultimately have "spec_next_time m transcribed n i (find_next m transcribed [Suc a..<n])"
      using Suc.hyps(1) by blast
    with None upt show ?thesis by simp
  next
    case (Some t)
    with upt have "find_next m transcribed [a..<n] = Some (tw_start (transcribed ! t))" by simp
    with Some lt Suc.prems show ?thesis
      unfolding spec_next_time_def by - (rule disjI2, rule exI[of _ a], rule exI[of _ t], simp)
  qed
qed

lemma find_next_spec:
  "spec_next_time m transcribed n i (find_next m transcribed [i + 1..<n])"
  by (rule find_next_spec_aux) auto

lemma spec_prev_time_unique:
  assumes "spec_prev_time m transcribed i x" "spec_prev_time m transcribed i y"
  shows "x = y"
proof -
  have nearest: "p = p'"
    if "p < i" "m p = Some t" "\<forall>q. p < q \<and> q < i \<longrightarrow> m q = None"
       "p' < i" "m p' = Some t'" "\<forall>q. p' < q \<and> q < i \<longrightarrow> m q = None" for p p' t t'
    using that by (metis linorder_neqE_nat option.distinct(1))
  from assms show ?thesis
    unfolding spec_prev_time_def
    by (elim disjE conjE exE) (auto dest: nearest)
qed

lemma spec_next_time_unique:
  assumes "spec_next_time m transcribed n i x" "spec_next_time m transcribed n i y"
  shows "x = y"
proof -
  have nearest: "q = q'"
    if "i < q" "m q = Some t" "\<forall>p. i < p \<and> p < q \<longrightarrow> m p = None"
       "i < q'" "m q' = Some t'" "\<forall>p. i < p \<and> p < q' \<longrightarrow> m p = None" for q q' t t'
    using that by (metis linorder_neqE_nat option.distinct(1))
  from assms show ?thesis
    unfolding spec_next_time_def
    by (elim disjE conjE exE) (auto dest: nearest)
qed

text \<open>
  Claim C7: for an unmatched lyrics index the previous and next times of the specification
  exist and are unique, and the entry \<^verbatim>\<open>align_lyrics\<close> emits is
  \<open>start = round(est, 2)\<close>, \<open>end = round(est + 0.2, 2)\<close>, \<open>estimated = True\<close> for
  \<open>est = (prev_time + next_time) / 2\<close>, or \<open>prev_time + 0.3\<close> without a next time. For
  the lyrics \<^verbatim>\<open>a b c\<close> and the transcription \<open>a\<close> at \<open>[0.0, 0.3]\<close>, \<open>c\<close> at
  \<open>[1.0, 1.3]\<close>, the entry of \<open>b\<close> is estimated, with start \<open>0.65\<close> and end \<open>0.85\<close>.
\<close>

theorem interpolated_entry:
  "(i < length lyrics_words \<and> m i = None \<longrightarrow>
      (\<exists>prev_time next_time.
          spec_prev_time m transcribed i prev_time
          \<and> spec_next_time m transcribed (length lyrics_words) i next_time)
      \<and> (\<forall>prev_time next_time.
            spec_prev_time m transcribed i prev_time
            \<and> spec_next_time m transcribed (length lyrics_words) i next_time
            \<longrightarrow> result_timings m lyrics_words transcribed ! i
                  = spec_entry (lyrics_words ! i) prev_time next_time))
   \<and> align_lyrics (get_lyrics_words [''a b c''])
        (transcribed_of [[\<lparr>wi_word = ''a'', wi_start = 0, wi_end = rnd64 (3 / 10)\<rparr>,
                          \<lparr>wi_word = ''c'', wi_start = 1, wi_end = rnd64 (13 / 10)\<rparr>]])
      = Inr [\<lparr>tm_word = ''a'', tm_start = 0, tm_end = rnd64 (3 / 10), tm_estimated = None,
               tm_line = Some 0\<rparr>,
             \<lparr>tm_word = ''b'', tm_start = rnd64 (65 / 100), tm_end = rnd64 (85 / 100),
               tm_estimated = Some True, tm_line = Some 0\<rparr>,
             \<lparr>tm_word = ''c'', tm_start = 1, tm_end = rnd64 (13 / 10), tm_estimated = None,
               tm_line = Some 0\<rparr>]"
proof (intro conjI impI allI)
  assume h: "i < length lyrics_words \<and> m i = None"
  show "\<exists>prev_time next_time.
          spec_prev_time m transcribed i prev_time
          \<and> spec_next_time m transcribed (length lyrics_words) i next_time"
    using find_prev_spec find_next_spec by blast
next
  fix prev_time next_time
  assume h: "i < length lyrics_words \<and> m i = None"
    and s: "spec_prev_time m transcribed i prev_time
          \<and> spec_next_time m transcribed (length lyrics_words) i next_time"
  have p: "find_prev m transcribed i = prev_time"
    using s find_prev_spec spec_prev_time_unique by blast
  have n: "find_next m transcribed [i + 1..<length lyrics_words] = next_time"
    using s find_next_spec spec_next_time_unique by blast
  have "result_timings m lyrics_words transcribed ! i = word_timing m lyrics_words transcribed i"
    using h by (simp add: result_timings_def)
  also have "\<dots> = spec_entry (lyrics_words ! i) prev_time next_time"
    using h p n
    by (simp add: word_timing_def spec_entry_def est_time_def fadd_def fdiv_def Let_def
             split: option.splits)
  finally show "result_timings m lyrics_words transcribed ! i
                  = spec_entry (lyrics_words ! i) prev_time next_time" .
next
  show "align_lyrics (get_lyrics_words [''a b c''])
        (transcribed_of [[\<lparr>wi_word = ''a'', wi_start = 0, wi_end = rnd64 (3 / 10)\<rparr>,
                          \<lparr>wi_word = ''c'', wi_start = 1, wi_end = rnd64 (13 / 10)\<rparr>]])
      = Inr [\<lparr>tm_word = ''a'', tm_start = 0, tm_end = rnd64 (3 / 10), tm_estimated = None,
               tm_line = Some 0\<rparr>,
             \<lparr>tm_word = ''b'', tm_start = rnd64 (65 / 100), tm_end = rnd64 (85 / 100),
               tm_estimated = Some True, tm_line = Some 0\<rparr>,
             \<lparr>tm_word = ''c'', tm_start = 1, tm_end = rnd64 (13 / 10), tm_estimated = None,
               tm_line = Some 0\<rparr>]"
    by code_simp
qed

theorem interpolated_entry_witness:
  "1 < length (get_lyrics_words [''a b c''])
   \<and> lyrics_to_trans [''a'', ''b'', ''c''] [''a'', ''c''] 1 = None
   \<and> (\<exists>prev_time next_time.
         spec_prev_time (lyrics_to_trans [''a'', ''b'', ''c''] [''a'', ''c''])
           (transcribed_of [[\<lparr>wi_word = ''a'', wi_start = 0, wi_end = rnd64 (3 / 10)\<rparr>,
                             \<lparr>wi_word = ''c'', wi_start = 1, wi_end = rnd64 (13 / 10)\<rparr>]])
           1 prev_time
         \<and> spec_next_time (lyrics_to_trans [''a'', ''b'', ''c''] [''a'', ''c''])
             (transcribed_of [[\<lparr>wi_word = ''a'', wi_start = 0, wi_end = rnd64 (3 / 10)\<rparr>,
                               \<lparr>wi_word = ''c'', wi_start = 1, wi_end = rnd64 (13 / 10)\<rparr>]])
             (length (get_lyrics_words [''a b c''])) 1 next_time
         \<and> result_timings (lyrics_to_trans [''a'', ''b'', ''c''] [''a'', ''c''])
             (get_lyrics_words [''a b c''])
             (transcribed_of [[\<lparr>wi_word = ''a'', wi_start = 0, wi_end = rnd64 (3 / 10)\<rparr>,
                               \<lparr>wi_word = ''c'', wi_start = 1, wi_end = rnd64 (13 / 10)\<rparr>]])
             ! 1
           = spec_entry (get_lyrics_words [''a b c''] ! 1) prev_time next_time)"
proof -
  have h1: "1 < length (get_lyrics_words [''a b c''])" by code_simp
  have h2: "lyrics_to_trans [''a'', ''b'', ''c''] [''a'', ''c''] 1 = None" by code_simp
  from h1 h2 have h: "1 < length (get_lyrics_words [''a b c''])
    \<and> lyrics_to_trans [''a'', ''b'', ''c''] [''a'', ''c''] 1 = None" by simp
  from h h1 h2
    interpolated_entry[where i = 1 and lyrics_words = "get_lyrics_words [''a b c'']"
      and m = "lyrics_to_trans [''a'', ''b'', ''c''] [''a'', ''c'']"
      and transcribed = "transcribed_of [[\<lparr>wi_word = ''a'', wi_start = 0, wi_end = rnd64 (3 / 10)\<rparr>,
                             \<lparr>wi_word = ''c'', wi_start = 1, wi_end = rnd64 (13 / 10)\<rparr>]]"]
  show ?thesis by blast
qed

section \<open>Properties of format\_reactive\<close>

lemma round2_zero: "round2 (fsub x x) = 0"
  by (simp add: fsub_def rnd64_def round2_def rne_def)

lemma words_array_zip:
  "words_array font color prev ws =
     map (\<lambda>(w, d). \<lparr>wo_font = font, wo_color = color, wo_time = d, wo_text = upper (tm_word w)\<rparr>)
         (zip ws (map (\<lambda>(p, c). round2 (rnd64 (c - p)))
                      (zip (prev # map tm_start ws) (map tm_start ws))))"
  by (induction ws arbitrary: prev) (simp_all add: fsub_def)

lemma words_array_spec:
  "words_array font color (tm_start w) (w # ws) =
     map (\<lambda>(w, d). \<lparr>wo_font = font, wo_color = color, wo_time = d, wo_text = upper (tm_word w)\<rparr>)
         (zip (w # ws) (spec_deltas (map tm_start (w # ws))))"
proof -
  have "words_array font color (tm_start w) (w # ws) =
          \<lparr>wo_font = font, wo_color = color, wo_time = 0, wo_text = upper (tm_word w)\<rparr>
          # words_array font color (tm_start w) ws"
    by (simp add: round2_zero)
  then show ?thesis
    by (simp add: words_array_zip[of font color "tm_start w" ws] spec_deltas_def)
qed

lemma group_lines_inv:
  "distinct (map fst acc) \<Longrightarrow>
   distinct (map fst (group_lines ws acc))
   \<and> set (map fst (group_lines ws acc)) = set (map fst acc) \<union> line_of ` set ws
   \<and> (\<forall>l. lookup_words (group_lines ws acc) l
            = lookup_words acc l @ filter (\<lambda>w. line_of w = l) ws)"
proof (induction ws arbitrary: acc)
  case Nil
  then show ?case by simp
next
  case (Cons w ws)
  let ?n = "line_of w"
  let ?acc' = "if map_of acc ?n = None then AList.update ?n [] acc else acc"
  let ?cur = "case map_of ?acc' ?n of None \<Rightarrow> [] | Some ws \<Rightarrow> ws"
  let ?acc2 = "AList.update ?n (?cur @ [w]) ?acc'"
  have step: "group_lines (w # ws) acc = group_lines ws ?acc2"
    by (simp add: Let_def)
  have d': "distinct (map fst ?acc')" using Cons.prems by (simp add: distinct_update)
  then have d2: "distinct (map fst ?acc2)" by (rule distinct_update)
  have keys: "set (map fst ?acc2) = insert ?n (set (map fst acc))"
    by (auto simp: dom_update)
  have cur: "?cur = lookup_words acc ?n"
    by (auto simp: lookup_words_def update_conv' split: option.splits)
  have look: "lookup_words ?acc2 l = lookup_words acc l @ (if l = ?n then [w] else [])" for l
    unfolding cur by (auto simp: lookup_words_def update_conv' split: option.splits)
  from Cons.IH[OF d2] show ?case
    unfolding step keys look by auto
qed

lemma group_lines_nonempty:
  assumes "l \<in> line_of ` set ws"
  shows "filter (\<lambda>w. line_of w = l) ws \<noteq> []"
  using assms by (auto simp: filter_empty_conv)

lemma format_reactive_spec:
  "format_reactive word_timings font color subtitles
     = map (spec_line word_timings font color subtitles)
           (sorted_list_of_set (line_of ` set word_timings))"
proof -
  let ?lines = "group_lines word_timings []"
  from group_lines_inv[of "[]" word_timings]
  have d: "distinct (map fst ?lines)"
    and k: "set (map fst ?lines) = line_of ` set word_timings"
    and w: "\<And>l. lookup_words ?lines l = filter (\<lambda>w. line_of w = l) word_timings"
    by (simp_all add: lookup_words_def)
  have keys: "sort (map fst ?lines) = sorted_list_of_set (line_of ` set word_timings)"
    using d k by (metis distinct_remdups_id sorted_list_of_set_sort_remdups)
  have rec: "line_record font color subtitles l (lookup_words ?lines l)
               = [spec_line word_timings font color subtitles l]"
    if "l \<in> line_of ` set word_timings" for l
  proof -
    from group_lines_nonempty[OF that] obtain f fs
      where ws: "filter (\<lambda>w. line_of w = l) word_timings = f # fs"
      by (cases "filter (\<lambda>w. line_of w = l) word_timings") auto
    have sub: "(case subtitles of None \<Rightarrow> None
                | Some subs \<Rightarrow> if subs \<noteq> [] \<and> l < length subs
                               then Some (upper (subs ! l)) else None)
             = (case subtitles of None \<Rightarrow> None
                | Some subs \<Rightarrow> if l < length subs then Some (upper (subs ! l)) else None)"
      by (auto split: option.splits)
    show ?thesis
      unfolding w ws line_record_def spec_line_def
      by (simp add: ws words_array_spec sub Let_def del: words_array.simps)
  qed
  have "format_reactive word_timings font color subtitles
          = concat (map (\<lambda>l. line_record font color subtitles l (lookup_words ?lines l))
                        (sorted_list_of_set (line_of ` set word_timings)))"
    by (simp add: format_reactive_def lookup_words_def keys Let_def)
  also have "\<dots> = concat (map (\<lambda>l. [spec_line word_timings font color subtitles l])
                              (sorted_list_of_set (line_of ` set word_timings)))"
    by (rule arg_cong[where f = concat], rule map_cong) (simp_all add: rec)
  also have "\<dots> = map (spec_line word_timings font color subtitles)
                       (sorted_list_of_set (line_of ` set word_timings))"
    by (induction "sorted_list_of_set (line_of ` set word_timings)") simp_all
  finally show ?thesis .
qed

lemma round2_rnd64_zero: "round2 (rnd64 0) = 0"
  by (simp add: rnd64_def round2_def rne_def)

lemma delta_half: "round2 (rnd64 (rnd64 (21 / 2) - 10)) = rnd64 (1 / 2)"
  by code_simp

lemma delta_seven_tenths: "round2 (rnd64 (rnd64 (56 / 5) - rnd64 (21 / 2))) = rnd64 (7 / 10)"
  by code_simp

lemma upper_examples: "upper ''la'' = ''LA''" "upper ''di'' = ''DI''" "upper ''da'' = ''DA''"
  by code_simp+

text \<open>
  Claim C9: \<^verbatim>\<open>format_reactive\<close> returns one record per line index that occurs, in
  ascending order, each the specification's record; a line whose index is at or beyond
  the length of the subtitle sequence has no subtitle; the starts \<open>[10.0, 10.5, 11.2]\<close>
  give the deltas \<open>[0.0, 0.5, 0.7]\<close> and \<open>seconds = 10.0\<close> (here for line 1, with a
  subtitle sequence of length 1).
\<close>

theorem reactive_lines:
  "format_reactive word_timings font color subtitles
     = map (spec_line word_timings font color subtitles)
           (sorted_list_of_set (line_of ` set word_timings))
   \<and> lo_subtitle (spec_line word_timings font color (Some subs) (length subs + d)) = None
   \<and> spec_deltas [10, rnd64 (21 / 2), rnd64 (56 / 5)] = [0, rnd64 (1 / 2), rnd64 (7 / 10)]
   \<and> format_reactive
        [\<lparr>tm_word = ''la'', tm_start = 10, tm_end = rnd64 (51 / 5), tm_estimated = None,
          tm_line = Some 1\<rparr>,
         \<lparr>tm_word = ''di'', tm_start = rnd64 (21 / 2), tm_end = rnd64 (107 / 10),
          tm_estimated = None, tm_line = Some 1\<rparr>,
         \<lparr>tm_word = ''da'', tm_start = rnd64 (56 / 5), tm_end = rnd64 (57 / 5),
          tm_estimated = Some True, tm_line = Some 1\<rparr>]
        ''f'' ''white'' (Some [''intro''])
      = [\<lparr>lo_text =
            [\<lparr>wo_font = ''f'', wo_color = ''white'', wo_time = 0, wo_text = ''LA''\<rparr>,
             \<lparr>wo_font = ''f'', wo_color = ''white'', wo_time = rnd64 (1 / 2), wo_text = ''DI''\<rparr>,
             \<lparr>wo_font = ''f'', wo_color = ''white'', wo_time = rnd64 (7 / 10), wo_text = ''DA''\<rparr>],
          lo_isJson = True, lo_locked = True, lo_seconds = 10, lo_subtitle = None\<rparr>]"
proof -
  have a: "lo_subtitle (spec_line word_timings font color (Some subs) (length subs + d)) = None"
    by (simp add: spec_line_def Let_def)
  have b: "spec_deltas [10, rnd64 (21 / 2), rnd64 (56 / 5)] = [0, rnd64 (1 / 2), rnd64 (7 / 10)]"
    by (simp add: spec_deltas_def delta_half delta_seven_tenths)
  have c: "format_reactive
        [\<lparr>tm_word = ''la'', tm_start = 10, tm_end = rnd64 (51 / 5), tm_estimated = None,
          tm_line = Some 1\<rparr>,
         \<lparr>tm_word = ''di'', tm_start = rnd64 (21 / 2), tm_end = rnd64 (107 / 10),
          tm_estimated = None, tm_line = Some 1\<rparr>,
         \<lparr>tm_word = ''da'', tm_start = rnd64 (56 / 5), tm_end = rnd64 (57 / 5),
          tm_estimated = Some True, tm_line = Some 1\<rparr>]
        ''f'' ''white'' (Some [''intro''])
      = [\<lparr>lo_text =
            [\<lparr>wo_font = ''f'', wo_color = ''white'', wo_time = 0, wo_text = ''LA''\<rparr>,
             \<lparr>wo_font = ''f'', wo_color = ''white'', wo_time = rnd64 (1 / 2), wo_text = ''DI''\<rparr>,
             \<lparr>wo_font = ''f'', wo_color = ''white'', wo_time = rnd64 (7 / 10), wo_text = ''DA''\<rparr>],
          lo_isJson = True, lo_locked = True, lo_seconds = 10, lo_subtitle = None\<rparr>]"
    by (simp add: format_reactive_def line_record_def line_of_def fsub_def round2_rnd64_zero
          delta_half delta_seven_tenths upper_examples)
  from format_reactive_spec a b c show ?thesis by blast
qed

section \<open>Properties of the float operations\<close>

subsection \<open>Rounding to an integer, and the binary exponent\<close>

lemma rne_cases:
  "rne x = \<lfloor>x\<rfloor> \<or> rne x = \<lfloor>x\<rfloor> + 1"
  by (simp add: rne_def Let_def)

lemma rne_error: "\<bar>of_int (rne x) - x\<bar> \<le> 1 / 2"
proof -
  define f where "f = \<lfloor>x\<rfloor>"
  have "of_int f \<le> x" "x < of_int f + 1" unfolding f_def by linarith+
  then show ?thesis
    unfolding rne_def Let_def f_def[symmetric] by (auto simp: abs_if)
qed

lemma rne_of_int [simp]: "rne (of_int n) = n"
  by (simp add: rne_def)

lemma rne_mono:
  assumes "x \<le> y"
  shows "rne x \<le> rne y"
proof (cases "\<lfloor>x\<rfloor> = \<lfloor>y\<rfloor>")
  case True
  with assms have "x - of_int \<lfloor>x\<rfloor> \<le> y - of_int \<lfloor>y\<rfloor>" by simp
  with True show ?thesis by (auto simp: rne_def Let_def)
next
  case False
  with assms have "\<lfloor>x\<rfloor> < \<lfloor>y\<rfloor>" by (simp add: floor_mono order.not_eq_order_implies_strict)
  moreover have "rne x \<le> \<lfloor>x\<rfloor> + 1" "\<lfloor>y\<rfloor> \<le> rne y"
    using rne_cases[of x] rne_cases[of y] by auto
  ultimately show ?thesis by linarith
qed

lemma rne_minus: "rne (- x) = - rne x"
proof (cases "x = of_int \<lfloor>x\<rfloor>")
  case True
  then obtain n where "x = of_int n" ..
  then have "- x = of_int (- n)" by simp
  then show ?thesis unfolding \<open>x = of_int n\<close> by (metis rne_of_int)
next
  case False
  then have fl: "\<lfloor>- x\<rfloor> = - \<lfloor>x\<rfloor> - 1"
    by (metis Ints_of_int ceiling_altdef ceiling_def diff_minus_eq_add minus_add_cancel uminus_add_conv_diff)
  define f where "f = \<lfloor>x\<rfloor>"
  define d where "d = x - of_int f"
  have d': "- x - of_int (- f - 1) = 1 - d" by (simp add: d_def)
  have par: "even (- f - 1) = odd f" by simp
  show ?thesis
    unfolding rne_def fl Let_def f_def[symmetric] d' par d_def[symmetric]
    by auto
qed

lemma ilog2_bounds:
  assumes "0 < x"
  shows "2 powi ilog2 x \<le> x \<and> x < 2 powi (ilog2 x + 1)"
proof (cases "1 \<le> x")
  case True
  define n where "n = \<lfloor>x\<rfloor>"
  have n1: "1 \<le> n" using True by (simp add: n_def)
  define b where "b = bitlen n"
  from bitlen_bounds[of n] n1 have bb: "2 ^ nat (b - 1) \<le> n" "n < 2 ^ nat b"
    by (simp_all add: b_def)
  have b1: "1 \<le> b" using n1 bitlen_nonneg[of n] bitlen_eq_zero_iff[of n] unfolding b_def by linarith
  have il: "ilog2 x = b - 1" using True by (simp add: ilog2_def b_def n_def)
  have "(2::rat) powi (b - 1) = of_int (2 ^ nat (b - 1))"
    using b1 by (simp add: power_int_def)
  also have "\<dots> \<le> of_int n" using bb(1) by (simp only: of_int_le_iff)
  also have "\<dots> \<le> x" by (simp add: n_def)
  finally have lo: "2 powi (b - 1) \<le> x" .
  have "x < of_int (n + 1)" unfolding n_def by linarith
  also have "\<dots> \<le> of_int (2 ^ nat b)"
  proof -
    from bb(2) have "n + 1 \<le> 2 ^ nat b" by simp
    then show ?thesis by (simp only: of_int_le_iff)
  qed
  also have "\<dots> = (2::rat) powi b" using b1 by (simp add: power_int_def)
  finally have hi: "x < 2 powi b" .
  from lo hi il show ?thesis by simp
next
  case False
  with assms have x1: "x < 1" by simp
  define y where "y = 1 / x"
  have y1: "1 < y" using assms x1 by (simp add: y_def)
  define n where "n = \<lceil>y\<rceil> - 1"
  have n1: "1 \<le> n" using y1 unfolding n_def by linarith
  define b where "b = bitlen n"
  from bitlen_bounds[of n] n1 have bb: "2 ^ nat (b - 1) \<le> n" "n < 2 ^ nat b"
    by (simp_all add: b_def)
  have b1: "1 \<le> b" using n1 bitlen_nonneg[of n] bitlen_eq_zero_iff[of n] unfolding b_def by linarith
  have il: "ilog2 x = - b" using False by (simp add: ilog2_def b_def n_def y_def)
  have ny: "of_int n < y" "y \<le> of_int n + 1" unfolding n_def by linarith+
  have "(2::rat) powi (b - 1) = of_int (2 ^ nat (b - 1))"
    using b1 by (simp add: power_int_def)
  also have "\<dots> \<le> of_int n" using bb(1) by (simp only: of_int_le_iff)
  also have "\<dots> < y" by (rule ny)
  finally have 1: "2 powi (b - 1) < 1 / x" by (simp add: y_def)
  have "y \<le> of_int (n + 1)" using ny by simp
  also have "\<dots> \<le> of_int (2 ^ nat b)"
  proof -
    from bb(2) have "n + 1 \<le> 2 ^ nat b" by simp
    then show ?thesis by (simp only: of_int_le_iff)
  qed
  also have "\<dots> = (2::rat) powi b" using b1 by (simp add: power_int_def)
  finally have 2: "1 / x \<le> 2 powi b" by (simp add: y_def)
  have p: "(0::rat) < 2 powi b" "(0::rat) < 2 powi (b - 1)" by simp_all
  from 2 assms p have lo: "2 powi (- b) \<le> x"
    by (simp add: power_int_minus field_simps)
  from 1 assms p have hi: "x < 2 powi (- b + 1)"
  proof -
    have "2 powi (- b + 1) = 1 / ((2::rat) powi (b - 1))"
      by (metis add.commute minus_diff_eq power_int_minus uminus_add_conv_diff inverse_eq_divide)
    moreover from 1 assms p(2) have "x < 1 / (2 powi (b - 1))"
      by (simp add: field_simps)
    ultimately show ?thesis by simp
  qed
  from lo hi il show ?thesis by simp
qed

lemma powi2_mono: "a \<le> b \<Longrightarrow> (2::rat) powi a \<le> 2 powi b"
  by (rule power_int_increasing) simp_all

lemma powi2_less_imp: "(2::rat) powi a < 2 powi b \<Longrightarrow> a < b"
  using powi2_mono[of b a] by (cases "a < b") auto

lemma ilog2_unique:
  assumes "2 powi e \<le> x" "x < 2 powi (e + 1)"
  shows "ilog2 x = e"
proof -
  have pos: "0 < x" using assms(1) by (rule less_le_trans[rotated]) simp
  from ilog2_bounds[OF pos] have b: "2 powi ilog2 x \<le> x" "x < 2 powi (ilog2 x + 1)" by simp_all
  have "2 powi e < (2::rat) powi (ilog2 x + 1)" using assms(1) b(2) by simp
  then have 1: "e < ilog2 x + 1" by (rule powi2_less_imp)
  have "2 powi ilog2 x < (2::rat) powi (e + 1)" using assms(2) b(1) by simp
  then have 2: "ilog2 x < e + 1" by (rule powi2_less_imp)
  from 1 2 show ?thesis by simp
qed

lemma ilog2_mono:
  assumes "0 < x" "x \<le> y"
  shows "ilog2 x \<le> ilog2 y"
proof -
  from assms have "0 < y" by simp
  from ilog2_bounds[OF assms(1)] ilog2_bounds[OF this] assms(2)
  have "2 powi ilog2 x < (2::rat) powi (ilog2 y + 1)" by simp
  then have "ilog2 x < ilog2 y + 1" by (rule powi2_less_imp)
  then show ?thesis by simp
qed

lemma ilog2_less:
  assumes "0 < x" "x < 2 powi k"
  shows "ilog2 x < k"
proof -
  from ilog2_bounds[OF assms(1)] assms(2) have "2 powi ilog2 x < (2::rat) powi k" by simp
  then show ?thesis by (rule powi2_less_imp)
qed

subsection \<open>Rounding to binary64 is monotone\<close>

lemma rnd64_alt:
  "rnd64 x = (if x = 0 then 0 else of_int (rne (x / 2 powi expo64 x)) * 2 powi expo64 x)"
  by (simp add: rnd64_def expo64_def Let_def)

lemma rnd64_zero [simp]: "rnd64 0 = 0"
  by (simp add: rnd64_def)

lemma expo64_minus [simp]: "expo64 (- x) = expo64 x"
  by (simp add: expo64_def)

lemma rnd64_minus: "rnd64 (- x) = - rnd64 x"
  by (simp add: rnd64_alt rne_minus)

lemma powi2_pos [simp]: "(0::rat) < 2 powi e"
  by simp

lemma powi2_int:
  assumes "0 \<le> d"
  shows "(2::rat) powi d = of_int (2 ^ nat d)"
  using assms by (simp add: power_int_def)

lemma powi2_div: "(2::rat) powi a / 2 powi b = 2 powi (a - b)"
  by (simp add: power_int_diff)

lemma rnd64_nonneg:
  assumes "0 \<le> x"
  shows "0 \<le> rnd64 x"
proof (cases "x = 0")
  case True
  then show ?thesis by simp
next
  case False
  have "0 \<le> x / 2 powi expo64 x" using assms by simp
  then have "rne 0 \<le> rne (x / 2 powi expo64 x)" by (rule rne_mono)
  then have "0 \<le> rne (x / 2 powi expo64 x)" using rne_of_int[of 0] by simp
  then show ?thesis using False by (simp add: rnd64_alt)
qed

lemma rnd64_exact:
  assumes "x = of_int N * 2 powi e'" "expo64 x \<le> e'"
  shows "rnd64 x = x"
proof (cases "x = 0")
  case True
  then show ?thesis by simp
next
  case False
  let ?e = "expo64 x"
  have "x / 2 powi ?e = of_int N * (2 powi e' / 2 powi ?e)" using assms(1) by simp
  also have "\<dots> = of_int N * 2 powi (e' - ?e)" by (simp only: powi2_div)
  also have "\<dots> = of_int (N * 2 ^ nat (e' - ?e))"
    using assms(2) by (simp add: powi2_int)
  finally have q: "x / 2 powi ?e = of_int (N * 2 ^ nat (e' - ?e))" .
  have "rnd64 x = of_int (rne (x / 2 powi ?e)) * 2 powi ?e" using False by (simp add: rnd64_alt)
  also have "\<dots> = (x / 2 powi ?e) * 2 powi ?e" unfolding q rne_of_int ..
  also have "\<dots> = x" by simp
  finally show ?thesis .
qed

lemma rnd64_le_pow2:
  assumes "0 < x" "x \<le> 2 powi k" "expo64 x \<le> k"
  shows "rnd64 x \<le> 2 powi k"
proof -
  let ?e = "expo64 x"
  have "x / 2 powi ?e \<le> 2 powi k / 2 powi ?e"
    using assms(2) by (simp add: divide_right_mono)
  also have "\<dots> = of_int (2 ^ nat (k - ?e))"
    using assms(3) by (simp add: powi2_div powi2_int)
  finally have "rne (x / 2 powi ?e) \<le> rne (of_int (2 ^ nat (k - ?e)))" by (rule rne_mono)
  then have "rne (x / 2 powi ?e) \<le> 2 ^ nat (k - ?e)" by (simp only: rne_of_int)
  then have "(of_int (rne (x / 2 powi ?e)) :: rat) \<le> of_int (2 ^ nat (k - ?e))"
    by (simp only: of_int_le_iff)
  also have "\<dots> = 2 powi (k - ?e)" using assms(3) by (simp add: powi2_int)
  finally have "of_int (rne (x / 2 powi ?e)) * 2 powi ?e \<le> 2 powi (k - ?e) * (2::rat) powi ?e"
    by (simp add: mult_right_mono)
  also have "\<dots> = (2::rat) powi k" by (simp add: power_int_add[symmetric])
  finally show ?thesis using assms(1) by (simp add: rnd64_alt)
qed

lemma rnd64_ge_pow2:
  assumes "2 powi k \<le> x" "expo64 x \<le> k"
  shows "2 powi k \<le> rnd64 x"
proof -
  let ?e = "expo64 x"
  have pos: "0 < x" using assms(1) by (rule less_le_trans[rotated]) simp
  have "(2::rat) powi k = 2 powi (k - ?e) * 2 powi ?e" by (simp add: power_int_add[symmetric])
  have "(of_int (2 ^ nat (k - ?e)) :: rat) = 2 powi k / 2 powi ?e"
    using assms(2) by (simp add: powi2_div powi2_int)
  also have "\<dots> \<le> x / 2 powi ?e"
    using assms(1) by (simp add: divide_right_mono)
  finally have "rne (of_int (2 ^ nat (k - ?e))) \<le> rne (x / 2 powi ?e)" by (rule rne_mono)
  then have "2 ^ nat (k - ?e) \<le> rne (x / 2 powi ?e)" by (simp only: rne_of_int)
  then have "(of_int (2 ^ nat (k - ?e)) :: rat) \<le> of_int (rne (x / 2 powi ?e))"
    by (simp only: of_int_le_iff)
  then have "2 powi (k - ?e) \<le> (of_int (rne (x / 2 powi ?e)) :: rat)"
    using assms(2) by (simp add: powi2_int)
  then have "2 powi (k - ?e) * 2 powi ?e \<le> of_int (rne (x / 2 powi ?e)) * (2::rat) powi ?e"
    by (simp add: mult_right_mono)
  then have "(2::rat) powi k \<le> of_int (rne (x / 2 powi ?e)) * 2 powi ?e"
    by (simp add: power_int_add[symmetric])
  then show ?thesis using pos by (simp add: rnd64_alt)
qed

lemma rnd64_mono_pos:
  assumes "0 < x" "x \<le> y"
  shows "rnd64 x \<le> rnd64 y"
proof -
  have ypos: "0 < y" using assms by simp
  have il: "ilog2 x \<le> ilog2 y" using assms by (rule ilog2_mono)
  have ax: "\<bar>x\<bar> = x" "\<bar>y\<bar> = y" using assms ypos by simp_all
  have ee: "expo64 x \<le> expo64 y" using il by (simp add: expo64_def ax)
  show ?thesis
  proof (cases "expo64 x = expo64 y")
    case True
    have "x / 2 powi expo64 y \<le> y / 2 powi expo64 y"
      using assms(2) by (simp add: divide_right_mono)
    then have "rne (x / 2 powi expo64 y) \<le> rne (y / 2 powi expo64 y)" by (rule rne_mono)
    then have "(of_int (rne (x / 2 powi expo64 y)) :: rat) \<le> of_int (rne (y / 2 powi expo64 y))"
      by (simp only: of_int_le_iff)
    then have "of_int (rne (x / 2 powi expo64 y)) * 2 powi expo64 y
                 \<le> of_int (rne (y / 2 powi expo64 y)) * (2::rat) powi expo64 y"
      by (simp add: mult_right_mono)
    then show ?thesis using assms ypos True by (simp add: rnd64_alt)
  next
    case False
    with ee have lt: "expo64 x < expo64 y" by simp
    let ?k = "ilog2 y"
    have ey: "expo64 y = ?k - 52" and lt': "ilog2 x < ?k"
      using lt by (auto simp: expo64_def ax)
    have 1: "2 powi ?k \<le> rnd64 y"
      using ilog2_bounds[OF ypos] ey by (intro rnd64_ge_pow2) simp_all
    have "x < 2 powi (ilog2 x + 1)" using ilog2_bounds[OF assms(1)] by simp
    also have "\<dots> \<le> 2 powi ?k" using lt' by (intro powi2_mono) simp
    finally have "x \<le> 2 powi ?k" by simp
    moreover have "expo64 x \<le> ?k" using lt ey by simp
    ultimately have 2: "rnd64 x \<le> 2 powi ?k" using assms(1) by (intro rnd64_le_pow2)
    from 1 2 show ?thesis by simp
  qed
qed

lemma rnd64_mono:
  assumes "x \<le> y"
  shows "rnd64 x \<le> rnd64 y"
proof -
  consider "0 < x" | "x \<le> 0" "0 \<le> y" | "y < 0" using assms by linarith
  then show ?thesis
  proof cases
    case 1
    then show ?thesis using assms by (rule rnd64_mono_pos)
  next
    case 2
    have "rnd64 x = - rnd64 (- x)" by (simp add: rnd64_minus)
    moreover have "0 \<le> rnd64 (- x)" using 2(1) by (intro rnd64_nonneg) simp
    moreover have "0 \<le> rnd64 y" using 2(2) by (rule rnd64_nonneg)
    ultimately show ?thesis by simp
  next
    case 3
    then have "0 < - y" "- y \<le> - x" using assms by simp_all
    then have "rnd64 (- y) \<le> rnd64 (- x)" by (rule rnd64_mono_pos)
    then show ?thesis by (simp add: rnd64_minus)
  qed
qed

subsection \<open>Floats round to themselves; the rounding error\<close>

lemma expo64_ge: "- 1074 \<le> expo64 x"
  by (simp add: expo64_def)

lemma expo64_le_iff_pos:
  assumes "0 < y" "y < 2 powi (53 + e)" "- 1074 \<le> e"
  shows "expo64 y \<le> e"
proof -
  have "ilog2 y < 53 + e" using assms(1,2) by (rule ilog2_less)
  then show ?thesis using assms(1,3) by (simp add: expo64_def)
qed

lemma rnd64_idem_pos:
  assumes "0 < x"
  shows "rnd64 (rnd64 x) = rnd64 x"
proof -
  let ?e = "expo64 x"
  let ?k = "ilog2 x"
  define N where "N = rne (x / 2 powi ?e)"
  have y: "rnd64 x = of_int N * 2 powi ?e" using assms by (simp add: rnd64_alt N_def)
  have ke: "?k + 1 - ?e \<le> 53" using assms by (simp add: expo64_def)
  have "x < 2 powi (?k + 1)" using ilog2_bounds[OF assms] by simp
  also have "\<dots> \<le> 2 powi (53 + ?e)" using ke by (intro powi2_mono) simp
  finally have "x / 2 powi ?e \<le> 2 powi (53 + ?e) / 2 powi ?e"
    by (simp add: divide_right_mono)
  also have "\<dots> = of_int (2 ^ 53)" by (simp add: powi2_div)
  finally have "rne (x / 2 powi ?e) \<le> rne (of_int (2 ^ 53))" by (rule rne_mono)
  then have N_le: "N \<le> 2 ^ 53" unfolding N_def by (simp only: rne_of_int)
  have "0 \<le> x / 2 powi ?e" using assms by simp
  then have "rne 0 \<le> rne (x / 2 powi ?e)" by (rule rne_mono)
  then have N_ge: "0 \<le> N" unfolding N_def using rne_of_int[of 0] by simp
  consider "N = 0" | "0 < N" "N < 2 ^ 53" | "N = 2 ^ 53" using N_le N_ge by linarith
  then show ?thesis
  proof cases
    case 1
    then show ?thesis by (simp add: y)
  next
    case 2
    have pos: "0 < rnd64 x" using 2(1) by (simp add: y)
    have "(of_int N :: rat) < of_int (2 ^ 53)" using 2(2) by (simp only: of_int_less_iff)
    then have "of_int N * 2 powi ?e < (2::rat) powi 53 * 2 powi ?e"
      by (simp add: mult_strict_right_mono)
    then have "rnd64 x < 2 powi (53 + ?e)" by (simp add: y power_int_add)
    with pos have "expo64 (rnd64 x) \<le> ?e" by (rule expo64_le_iff_pos) (rule expo64_ge)
    with y show ?thesis by (rule rnd64_exact)
  next
    case 3
    have y': "rnd64 x = of_int 1 * 2 powi (53 + ?e)" by (simp add: y 3 power_int_add)
    have "ilog2 (rnd64 x) = 53 + ?e"
      by (rule ilog2_unique) (simp_all add: y 3 power_int_add)
    moreover have "0 < rnd64 x" by (simp add: y 3)
    ultimately have "expo64 (rnd64 x) \<le> 53 + ?e"
      using expo64_ge[of x] by (simp add: expo64_def)
    with y' show ?thesis by (rule rnd64_exact)
  qed
qed

lemma rnd64_idem [simp]: "rnd64 (rnd64 x) = rnd64 x"
proof -
  consider "0 < x" | "x = 0" | "x < 0" by linarith
  then show ?thesis
  proof cases
    case 1
    then show ?thesis by (rule rnd64_idem_pos)
  next
    case 2
    then show ?thesis by simp
  next
    case 3
    then have "rnd64 (rnd64 (- x)) = rnd64 (- x)" by (intro rnd64_idem_pos) simp
    then show ?thesis by (simp add: rnd64_minus)
  qed
qed

text \<open>Doubling a float is exact.\<close>

lemma ilog2_double:
  assumes "0 < x"
  shows "ilog2 (2 * x) = ilog2 x + 1"
proof (rule ilog2_unique)
  from ilog2_bounds[OF assms] show "2 powi (ilog2 x + 1) \<le> 2 * x"
    by (simp add: power_int_add)
  from ilog2_bounds[OF assms] show "2 * x < 2 powi (ilog2 x + 1 + 1)"
    by (simp add: power_int_add)
qed

lemma rnd64_double:
  assumes "rnd64 p = p"
  shows "rnd64 (2 * p) = 2 * p"
proof (cases "p = 0")
  case True
  then show ?thesis by simp
next
  case False
  let ?e = "expo64 p"
  define N where "N = rne (p / 2 powi ?e)"
  have "p = of_int N * 2 powi ?e" using assms False by (simp add: rnd64_alt N_def)
  then have 1: "2 * p = of_int N * 2 powi (?e + 1)" by (simp add: power_int_add)
  have "0 < \<bar>p\<bar>" using False by simp
  from ilog2_double[OF this] have "ilog2 \<bar>2 * p\<bar> = ilog2 \<bar>p\<bar> + 1" by (simp add: abs_mult)
  then have 2: "expo64 (2 * p) \<le> ?e + 1" by (simp add: expo64_def max_def)
  from 1 2 show ?thesis by (rule rnd64_exact)
qed

text \<open>The rounding error.\<close>

lemma rnd64_error: "\<bar>rnd64 x - x\<bar> \<le> 2 powi expo64 x / 2"
proof (cases "x = 0")
  case True
  then show ?thesis by simp
next
  case False
  let ?e = "expo64 x"
  let ?z = "x / 2 powi ?e"
  have "rnd64 x - x = (of_int (rne ?z) - ?z) * 2 powi ?e"
    using False by (simp add: rnd64_alt algebra_simps)
  then have "\<bar>rnd64 x - x\<bar> = \<bar>of_int (rne ?z) - ?z\<bar> * 2 powi ?e"
    by (simp add: abs_mult)
  also have "\<dots> \<le> (1 / 2) * 2 powi ?e"
    using rne_error[of ?z] by (intro mult_right_mono) simp_all
  finally show ?thesis by simp
qed

lemma expo64_bound:
  assumes "x \<noteq> 0" "\<bar>x\<bar> < 2 powi k" "- 1021 \<le> k"
  shows "expo64 x \<le> k - 53"
proof -
  from assms(1) have "0 < \<bar>x\<bar>" by simp
  from ilog2_less[OF this assms(2)] assms(3) show ?thesis by (simp add: expo64_def)
qed

lemma rnd64_error_bound:
  assumes "\<bar>x\<bar> < 2 powi k" "- 1021 \<le> k"
  shows "\<bar>rnd64 x - x\<bar> \<le> 2 powi (k - 54)"
proof (cases "x = 0")
  case True
  then show ?thesis by simp
next
  case False
  have "2 powi expo64 x \<le> (2::rat) powi (k - 53)"
    using expo64_bound[OF False assms] by (rule powi2_mono)
  then have "2 powi expo64 x / 2 \<le> (2::rat) powi (k - 53) / 2" by simp
  also have "\<dots> = 2 powi (k - 54)"
    using power_int_add[of "2::rat" "k - 54" 1] by simp
  finally show ?thesis using rnd64_error[of x] by linarith
qed

subsection \<open>Rounding to two decimals\<close>

lemma round2_mono: "x \<le> y \<Longrightarrow> round2 x \<le> round2 y"
proof -
  assume "x \<le> y"
  then have "x * 100 \<le> y * 100" by simp
  then have "rne (x * 100) \<le> rne (y * 100)" by (rule rne_mono)
  then have "(of_int (rne (x * 100)) :: rat) / 100 \<le> of_int (rne (y * 100)) / 100"
    by (simp add: divide_right_mono)
  then show ?thesis unfolding round2_def by (rule rnd64_mono)
qed

lemma two_tenths: "rnd64 (2 / 10) = 3602879701896397 / 18014398509481984"
  by code_simp

lemma three_tenths: "rnd64 (3 / 10) = 5404319552844595 / 18014398509481984"
  by code_simp

lemma rnd64_pow2 [simp]: "- 1074 \<le> k \<Longrightarrow> rnd64 (2 powi k) = 2 powi k"
proof -
  assume k: "- 1074 \<le> k"
  have "ilog2 (2 powi k) = k" by (rule ilog2_unique) (simp_all add: power_int_add)
  then have "expo64 (2 powi k) \<le> k" using k by (simp add: expo64_def)
  moreover have "(2::rat) powi k = of_int 1 * 2 powi k" by simp
  ultimately show ?thesis by (rule rnd64_exact[rotated])
qed

lemma rnd64_le_pow2':
  assumes "x \<le> 2 powi k" "- 1074 \<le> k"
  shows "rnd64 x \<le> 2 powi k"
  using rnd64_mono[OF assms(1)] assms(2) by simp

text \<open>The midpoint of two floats is not below the smaller one.\<close>

lemma midpoint_ge:
  assumes "rnd64 p = p" "p \<le> n"
  shows "p \<le> fdiv (fadd p n) 2"
proof -
  have "2 * p \<le> p + n" using assms(2) by simp
  then have "rnd64 (2 * p) \<le> rnd64 (p + n)" by (rule rnd64_mono)
  then have "2 * p \<le> rnd64 (p + n)" using rnd64_double[OF assms(1)] by simp
  then have "p \<le> rnd64 (p + n) / 2" by simp
  then have "rnd64 p \<le> rnd64 (rnd64 (p + n) / 2)" by (rule rnd64_mono)
  then show ?thesis using assms(1) by (simp add: fdiv_def fadd_def)
qed

lemma fadd_ge:
  assumes "0 \<le> c"
  shows "rnd64 x \<le> fadd (rnd64 x) c"
proof -
  have "rnd64 x \<le> rnd64 x + c" using assms by simp
  then have "rnd64 (rnd64 x) \<le> rnd64 (rnd64 x + c)" by (rule rnd64_mono)
  then show ?thesis by (simp add: fadd_def)
qed

text \<open>Two decimals around an estimate of moderate size.\<close>

lemma abs_leD: "\<bar>x - y\<bar> \<le> (e::rat) \<Longrightarrow> y - e \<le> x \<and> x \<le> y + e"
  by (simp add: abs_le_iff)

lemma estimated_duration:
  assumes "0 \<le> est" "est \<le> 2 powi 46"
  shows "\<exists>a b. round2 est = rnd64 (of_int a / 100)
              \<and> round2 (fadd est (rnd64 (2 / 10))) = rnd64 (of_int b / 100)
              \<and> 19 \<le> b - a \<and> b - a \<le> 21
              \<and> round2 est < round2 (fadd est (rnd64 (2 / 10)))"
proof -
  define c :: rat where "c = 3602879701896397 / 18014398509481984"
  have c: "1 / 5 \<le> c" "c \<le> 201 / 1000" by (simp_all add: c_def)
  define s where "s = rnd64 (est + c)"
  define a where "a = rne (est * 100)"
  define b where "b = rne (s * 100)"
  define A :: rat where "A = of_int a"
  define B :: rat where "B = of_int b"
  define ra where "ra = rnd64 (A / 100)"
  define rb where "rb = rnd64 (B / 100)"
  have p47: "(2::rat) powi 47 = 140737488355328" "(2::rat) powi 46 = 70368744177664"
    "(2::rat) powi (47 - 54) = 1 / 128"
    by (simp_all add: power_int_def power_divide)
  have e46: "est \<le> 70368744177664" using assms(2) by (simp only: p47)
  have "\<bar>est + c\<bar> < 2 powi 47" using assms(1) e46 c unfolding p47 by simp
  then have "\<bar>s - (est + c)\<bar> \<le> 1 / 128"
    unfolding s_def p47(3)[symmetric] by (rule rnd64_error_bound) simp
  then have es: "est + c - 1 / 128 \<le> s" "s \<le> est + c + 1 / 128"
    using abs_leD by blast+
  have "\<bar>A - est * 100\<bar> \<le> 1 / 2" unfolding A_def a_def by (rule rne_error)
  then have ea: "est * 100 - 1 / 2 \<le> A" "A \<le> est * 100 + 1 / 2"
    using abs_leD by blast+
  have "\<bar>B - s * 100\<bar> \<le> 1 / 2" unfolding B_def b_def by (rule rne_error)
  then have eb: "s * 100 - 1 / 2 \<le> B" "B \<le> s * 100 + 1 / 2"
    using abs_leD by blast+
  have d: "18 < B - A" "B - A < 22"
    using es ea eb c by linarith+
  have "(of_int (b - a) :: rat) = B - A" by (simp add: A_def B_def)
  with d have "(of_int 18 :: rat) < of_int (b - a)" "(of_int (b - a) :: rat) < of_int 22"
    by simp_all
  then have "18 < b - a" "b - a < 22" by (simp_all only: of_int_less_iff)
  then have ba: "19 \<le> b - a" "b - a \<le> 21" by simp_all
  then have BA: "A + 19 \<le> B"
  proof -
    from ba(1) have "(of_int 19 :: rat) \<le> of_int (b - a)" by (simp only: of_int_le_iff)
    then show ?thesis by (simp add: A_def B_def)
  qed
  have A0: "- 1 / 2 \<le> A" "A \<le> 7036874417766401" using ea assms(1) e46 by linarith+
  have B0: "0 \<le> B" "B \<le> 7036874417766423" using d A0 by linarith+
  have "\<bar>A / 100\<bar> < 2 powi 47" using A0 unfolding p47 by (simp add: abs_less_iff)
  then have "\<bar>ra - A / 100\<bar> \<le> 1 / 128"
    unfolding ra_def p47(3)[symmetric] by (rule rnd64_error_bound) simp
  then have era: "ra \<le> A / 100 + 1 / 128" using abs_leD by blast
  have "\<bar>B / 100\<bar> < 2 powi 47" using B0 unfolding p47 by (simp add: abs_less_iff)
  then have "\<bar>rb - B / 100\<bar> \<le> 1 / 128"
    unfolding rb_def p47(3)[symmetric] by (rule rnd64_error_bound) simp
  then have erb: "B / 100 - 1 / 128 \<le> rb" using abs_leD by blast
  have lt: "ra < rb" using era erb BA by linarith
  have 1: "round2 est = rnd64 (of_int a / 100)" by (simp add: round2_def a_def)
  have 2: "round2 (fadd est (rnd64 (2 / 10))) = rnd64 (of_int b / 100)"
    unfolding two_tenths by (simp add: round2_def b_def s_def fadd_def c_def)
  from lt have 3: "round2 est < round2 (fadd est (rnd64 (2 / 10)))"
    unfolding 1 2 ra_def rb_def A_def B_def .
  from 1 2 ba 3 show ?thesis by blast
qed

text \<open>
  Both ends of the tolerance occur: between the times \<open>0.16\<close> and \<open>0.17\<close> the estimate
  \<open>0.165\<close> gives the start \<open>0.17\<close> and the end \<open>0.36\<close>; between \<open>0.01\<close> and \<open>0.02\<close>
  the estimate \<open>0.015\<close> gives the start \<open>0.01\<close> and the end \<open>0.22\<close>.
\<close>

lemma duration_nineteen_hundredths:
  "round2 (est_time (rnd64 (4 / 25)) (Some (rnd64 (17 / 100)))) = rnd64 (17 / 100)
   \<and> round2 (fadd (est_time (rnd64 (4 / 25)) (Some (rnd64 (17 / 100)))) (rnd64 (2 / 10)))
       = rnd64 (36 / 100)"
  by code_simp

lemma duration_twenty_one_hundredths:
  "round2 (est_time (rnd64 (1 / 100)) (Some (rnd64 (2 / 100)))) = rnd64 (1 / 100)
   \<and> round2 (fadd (est_time (rnd64 (1 / 100)) (Some (rnd64 (2 / 100)))) (rnd64 (2 / 10)))
       = rnd64 (22 / 100)"
  by code_simp

section \<open>The order of start and end\<close>

lemma lyrics_to_trans_in_range:
  "in_range (lyrics_to_trans (map lw_clean lyrics_words) (map tw_clean transcribed))
     (length transcribed)"
  unfolding in_range_def using lyrics_to_trans_cells by fastforce

lemma valid_nth:
  "list_all valid_word transcribed \<Longrightarrow> in_range m (length transcribed) \<Longrightarrow> m i = Some t \<Longrightarrow>
   valid_word (transcribed ! t)"
  by (simp add: list_all_length in_range_def)

lemma find_prev_valid:
  assumes "list_all valid_word transcribed" "in_range m (length transcribed)"
  shows "rnd64 (find_prev m transcribed i) = find_prev m transcribed i
         \<and> 0 \<le> find_prev m transcribed i \<and> find_prev m transcribed i \<le> 2 powi 45"
proof (induction i)
  case 0
  then show ?case by simp
next
  case (Suc i)
  show ?case
  proof (cases "m i")
    case None
    with Suc show ?thesis by simp
  next
    case (Some t)
    from valid_nth[OF assms Some] Some show ?thesis
      by (simp add: valid_word_def)
  qed
qed

lemma find_next_valid:
  assumes "list_all valid_word transcribed" "in_range m (length transcribed)"
  shows "find_next m transcribed js = Some nt \<Longrightarrow> rnd64 nt = nt \<and> 0 \<le> nt \<and> nt \<le> 2 powi 45"
proof (induction js)
  case Nil
  then show ?case by simp
next
  case (Cons j js)
  show ?case
  proof (cases "m j")
    case None
    with Cons show ?thesis by simp
  next
    case (Some t)
    from valid_nth[OF assms Some] Some Cons.prems show ?thesis
      by (auto simp: valid_word_def)
  qed
qed

lemma est_time_bounds:
  assumes "0 \<le> p" "p \<le> 2 powi 45" "\<And>nt. nx = Some nt \<Longrightarrow> 0 \<le> nt \<and> nt \<le> 2 powi 45"
  shows "0 \<le> est_time p nx \<and> est_time p nx \<le> 2 powi 46"
proof (cases nx)
  case None
  have p46: "(2::rat) powi 46 = 2 * 2 powi 45" "(1::rat) \<le> 2 powi 45"
    by (simp_all add: power_int_def)
  have c3: "0 \<le> rnd64 (3 / 10)" "rnd64 (3 / 10) \<le> 1" unfolding three_tenths by simp_all
  have "p + rnd64 (3 / 10) \<le> 2 powi 46" using assms(2) c3 p46 by linarith
  then have "rnd64 (p + rnd64 (3 / 10)) \<le> 2 powi 46" by (rule rnd64_le_pow2') simp
  moreover have "0 \<le> rnd64 (p + rnd64 (3 / 10))" using assms(1) c3 by (intro rnd64_nonneg) simp
  ultimately show ?thesis using None by (simp add: est_time_def fadd_def)
next
  case (Some nt)
  from assms(3)[OF Some] have nt: "0 \<le> nt" "nt \<le> 2 powi 45" by simp_all
  have p46: "(2::rat) powi 46 = 2 * 2 powi 45" by (simp add: power_int_def)
  have "p + nt \<le> 2 powi 46" using assms(2) nt p46 by linarith
  then have "rnd64 (p + nt) \<le> 2 powi 46" by (rule rnd64_le_pow2') simp
  then have "rnd64 (p + nt) / 2 \<le> 2 powi 45" using p46 by simp
  then have 1: "rnd64 (rnd64 (p + nt) / 2) \<le> 2 powi 45" by (rule rnd64_le_pow2') simp
  have "0 \<le> rnd64 (p + nt)" using assms(1) nt by (intro rnd64_nonneg) simp
  then have "0 \<le> rnd64 (p + nt) / 2" by simp
  then have 2: "0 \<le> rnd64 (rnd64 (p + nt) / 2)" by (rule rnd64_nonneg)
  have "(2::rat) powi 45 \<le> 2 powi 46" by (rule powi2_mono) simp
  with 1 2 Some show ?thesis by (simp add: est_time_def fadd_def fdiv_def)
qed

lemma word_timing_matched:
  "m i = Some t \<Longrightarrow>
   word_timing m lw tr i =
     \<lparr>tm_word = lw_original (lw ! i), tm_start = round2 (tw_start (tr ! t)),
      tm_end = round2 (tw_end (tr ! t)), tm_estimated = None, tm_line = Some (lw_line (lw ! i))\<rparr>"
  by (simp add: word_timing_def Let_def)

lemma word_timing_unmatched:
  "m i = None \<Longrightarrow>
   word_timing m lw tr i =
     \<lparr>tm_word = lw_original (lw ! i),
      tm_start = round2 (est_time (find_prev m tr i) (find_next m tr [i + 1..<length lw])),
      tm_end = round2 (fadd (est_time (find_prev m tr i) (find_next m tr [i + 1..<length lw]))
                        (rnd64 (2 / 10))),
      tm_estimated = Some True, tm_line = Some (lw_line (lw ! i))\<rparr>"
  by (simp add: word_timing_def Let_def)

lemma entry_order:
  assumes "list_all valid_word tr" "in_range m (length tr)"
  shows "tm_start (word_timing m lw tr i) \<le> tm_end (word_timing m lw tr i)
         \<and> (tm_estimated (word_timing m lw tr i) = Some True \<longrightarrow>
              (\<exists>a b. tm_start (word_timing m lw tr i) = rnd64 (of_int a / 100)
                     \<and> tm_end (word_timing m lw tr i) = rnd64 (of_int b / 100)
                     \<and> 19 \<le> b - a \<and> b - a \<le> 21)
              \<and> tm_start (word_timing m lw tr i) < tm_end (word_timing m lw tr i))"
proof (cases "m i")
  case (Some t)
  from valid_nth[OF assms Some] have "tw_start (tr ! t) \<le> tw_end (tr ! t)"
    by (simp add: valid_word_def)
  then have "round2 (tw_start (tr ! t)) \<le> round2 (tw_end (tr ! t))" by (rule round2_mono)
  then show ?thesis using Some by (simp add: word_timing_matched)
next
  case None
  let ?est = "est_time (find_prev m tr i) (find_next m tr [i + 1..<length lw])"
  have "0 \<le> ?est \<and> ?est \<le> 2 powi 46"
  proof (rule est_time_bounds)
    show "0 \<le> find_prev m tr i" "find_prev m tr i \<le> 2 powi 45"
      using find_prev_valid[OF assms, of i] by simp_all
    show "\<And>nt. find_next m tr [i + 1..<length lw] = Some nt \<Longrightarrow> 0 \<le> nt \<and> nt \<le> 2 powi 45"
      using find_next_valid[OF assms] by blast
  qed
  then have "\<exists>a b. round2 ?est = rnd64 (of_int a / 100)
              \<and> round2 (fadd ?est (rnd64 (2 / 10))) = rnd64 (of_int b / 100)
              \<and> 19 \<le> b - a \<and> b - a \<le> 21
              \<and> round2 ?est < round2 (fadd ?est (rnd64 (2 / 10)))"
    by (intro estimated_duration) simp_all
  then obtain a b where ab: "round2 ?est = rnd64 (of_int a / 100)"
      "round2 (fadd ?est (rnd64 (2 / 10))) = rnd64 (of_int b / 100)"
      "19 \<le> b - a" "b - a \<le> 21"
      "round2 ?est < round2 (fadd ?est (rnd64 (2 / 10)))"
    by blast
  have s: "tm_start (word_timing m lw tr i) = round2 ?est"
    and e: "tm_end (word_timing m lw tr i) = round2 (fadd ?est (rnd64 (2 / 10)))"
    using None by (simp_all add: word_timing_unmatched)
  have 1: "tm_start (word_timing m lw tr i) < tm_end (word_timing m lw tr i)"
    unfolding s e by (rule ab(5))
  have 2: "\<exists>a b. tm_start (word_timing m lw tr i) = rnd64 (of_int a / 100)
                     \<and> tm_end (word_timing m lw tr i) = rnd64 (of_int b / 100)
                     \<and> 19 \<le> b - a \<and> b - a \<le> 21"
    unfolding s e using ab(1-4) by blast
  from 1 2 show ?thesis by simp
qed

lemma between_anchors:
  assumes "list_all valid_word tr" "in_range m (length tr)"
    and "p < i" "i < n" "n < length lw" "m p = Some tp" "m n = Some tn"
    and "\<forall>q. p < q \<and> q < n \<longrightarrow> m q = None"
    and "tw_end (tr ! tp) \<le> tw_start (tr ! tn)"
  shows "tm_estimated (word_timing m lw tr i) = Some True
         \<and> tm_start (word_timing m lw tr i)
             = round2 (fdiv (fadd (tw_end (tr ! tp)) (tw_start (tr ! tn))) 2)
         \<and> tw_end (tr ! tp) \<le> fdiv (fadd (tw_end (tr ! tp)) (tw_start (tr ! tn))) 2
         \<and> tm_end (word_timing m lw tr p) \<le> tm_start (word_timing m lw tr i)"
proof -
  have none: "m i = None" using assms(3,4,8) by blast
  have "spec_prev_time m tr i (tw_end (tr ! tp))"
    unfolding spec_prev_time_def using assms(3,4,6,8)
    by - (rule disjI2, rule exI[of _ p], rule exI[of _ tp], auto)
  then have prev: "find_prev m tr i = tw_end (tr ! tp)"
    using find_prev_spec spec_prev_time_unique by blast
  have "spec_next_time m tr (length lw) i (Some (tw_start (tr ! tn)))"
    unfolding spec_next_time_def using assms(3,4,5,7,8)
    by - (rule disjI2, rule exI[of _ n], rule exI[of _ tn], auto)
  then have nxt: "find_next m tr [i + 1..<length lw] = Some (tw_start (tr ! tn))"
    using find_next_spec spec_next_time_unique by blast
  let ?mid = "fdiv (fadd (tw_end (tr ! tp)) (tw_start (tr ! tn))) 2"
  have est: "est_time (find_prev m tr i) (find_next m tr [i + 1..<length lw]) = ?mid"
    using nxt by (simp add: prev est_time_def)
  from valid_nth[OF assms(1,2,6)] have fl: "rnd64 (tw_end (tr ! tp)) = tw_end (tr ! tp)"
    by (simp add: valid_word_def)
  from midpoint_ge[OF fl assms(9)] have ge: "tw_end (tr ! tp) \<le> ?mid" .
  then have "round2 (tw_end (tr ! tp)) \<le> round2 ?mid" by (rule round2_mono)
  then show ?thesis
    using ge none assms(6) est by (simp add: word_timing_unmatched word_timing_matched)
qed

text \<open>
  Claim C5, as amended. For a transcription of valid words: every entry
  \<^verbatim>\<open>align_lyrics\<close> returns has \<open>start \<le> end\<close>; an estimated entry has its start and
  its end at the floats of two decimals \<open>a / 100\<close> and \<open>b / 100\<close> with
  \<open>19 \<le> b - a \<le> 21\<close> (0.2 seconds within one hundredth), and a positive duration;
  and for an unmatched index \<open>i\<close> between its nearest matched neighbours \<open>p\<close> and
  \<open>n\<close>, when the transcribed word of \<open>p\<close> ends no later than the one of \<open>n\<close> starts,
  the midpoint estimate is not earlier than that end, and the start emitted for \<open>i\<close> is not
  earlier than the end emitted for \<open>p\<close>.
\<close>

theorem estimated_interval_order:
  assumes "list_all valid_word transcribed"
    and "m = lyrics_to_trans (map lw_clean lyrics_words) (map tw_clean transcribed)"
    and "align_lyrics lyrics_words transcribed = Inr timings"
  shows "(\<forall>i<length timings. tm_start (timings ! i) \<le> tm_end (timings ! i))
       \<and> (\<forall>i<length timings. tm_estimated (timings ! i) = Some True \<longrightarrow>
             (\<exists>a b. tm_start (timings ! i) = rnd64 (of_int a / 100)
                    \<and> tm_end (timings ! i) = rnd64 (of_int b / 100)
                    \<and> 19 \<le> b - a \<and> b - a \<le> 21)
             \<and> tm_start (timings ! i) < tm_end (timings ! i))
       \<and> (\<forall>p i n tp tn.
             p < i \<and> i < n \<and> n < length lyrics_words \<and> m p = Some tp \<and> m n = Some tn
             \<and> (\<forall>q. p < q \<and> q < n \<longrightarrow> m q = None)
             \<and> tw_end (transcribed ! tp) \<le> tw_start (transcribed ! tn)
             \<longrightarrow> tm_estimated (timings ! i) = Some True
                 \<and> tm_start (timings ! i)
                     = round2 (fdiv (fadd (tw_end (transcribed ! tp)) (tw_start (transcribed ! tn))) 2)
                 \<and> tw_end (transcribed ! tp)
                     \<le> fdiv (fadd (tw_end (transcribed ! tp)) (tw_start (transcribed ! tn))) 2
                 \<and> tm_end (timings ! p) \<le> tm_start (timings ! i))"
proof -
  have ne: "lyrics_words \<noteq> []"
    using assms(3) by (auto simp: align_lyrics_Nil)
  from align_lyrics_Inr[OF ne, of transcribed] assms(2,3)
  have t: "timings = result_timings m lyrics_words transcribed" by simp
  have rng: "in_range m (length transcribed)"
    unfolding assms(2) by (rule lyrics_to_trans_in_range)
  have nth: "timings ! i = word_timing m lyrics_words transcribed i" if "i < length lyrics_words" for i
    using that by (simp add: t result_timings_def)
  have len: "length timings = length lyrics_words" by (simp add: t result_timings_def)
  show ?thesis
  proof (intro conjI allI impI)
    fix i assume "i < length timings"
    then show "tm_start (timings ! i) \<le> tm_end (timings ! i)"
      using entry_order[OF assms(1) rng, of lyrics_words i] by (simp add: nth len)
  next
    fix i assume "i < length timings" "tm_estimated (timings ! i) = Some True"
    then show "\<exists>a b. tm_start (timings ! i) = rnd64 (of_int a / 100)
                    \<and> tm_end (timings ! i) = rnd64 (of_int b / 100)
                    \<and> 19 \<le> b - a \<and> b - a \<le> 21"
      using entry_order[OF assms(1) rng, of lyrics_words i] by (simp add: nth len)
  next
    fix i assume "i < length timings" "tm_estimated (timings ! i) = Some True"
    then show "tm_start (timings ! i) < tm_end (timings ! i)"
      using entry_order[OF assms(1) rng, of lyrics_words i] by (simp add: nth len)
  next
    fix p i n tp tn
    assume h: "p < i \<and> i < n \<and> n < length lyrics_words \<and> m p = Some tp \<and> m n = Some tn
             \<and> (\<forall>q. p < q \<and> q < n \<longrightarrow> m q = None)
             \<and> tw_end (transcribed ! tp) \<le> tw_start (transcribed ! tn)"
    then have b: "tm_estimated (word_timing m lyrics_words transcribed i) = Some True
         \<and> tm_start (word_timing m lyrics_words transcribed i)
             = round2 (fdiv (fadd (tw_end (transcribed ! tp)) (tw_start (transcribed ! tn))) 2)
         \<and> tw_end (transcribed ! tp)
             \<le> fdiv (fadd (tw_end (transcribed ! tp)) (tw_start (transcribed ! tn))) 2
         \<and> tm_end (word_timing m lyrics_words transcribed p)
             \<le> tm_start (word_timing m lyrics_words transcribed i)"
      using between_anchors[OF assms(1) rng, of p i n lyrics_words tp tn] by blast
    from h have "i < length lyrics_words" "p < length lyrics_words" by simp_all
    with b show "tm_estimated (timings ! i) = Some True" by (simp add: nth)
    from b \<open>i < length lyrics_words\<close> show "tm_start (timings ! i)
        = round2 (fdiv (fadd (tw_end (transcribed ! tp)) (tw_start (transcribed ! tn))) 2)"
      by (simp add: nth)
    from b show "tw_end (transcribed ! tp)
        \<le> fdiv (fadd (tw_end (transcribed ! tp)) (tw_start (transcribed ! tn))) 2" by simp
    from b \<open>i < length lyrics_words\<close> \<open>p < length lyrics_words\<close>
    show "tm_end (timings ! p) \<le> tm_start (timings ! i)" by (simp add: nth)
  qed
qed

theorem estimated_interval_order_witness:
  "list_all valid_word
     (transcribed_of [[\<lparr>wi_word = ''a'', wi_start = 0, wi_end = rnd64 (3 / 10)\<rparr>,
                       \<lparr>wi_word = ''c'', wi_start = 1, wi_end = rnd64 (13 / 10)\<rparr>]])
   \<and> align_lyrics (get_lyrics_words [''a b c''])
        (transcribed_of [[\<lparr>wi_word = ''a'', wi_start = 0, wi_end = rnd64 (3 / 10)\<rparr>,
                          \<lparr>wi_word = ''c'', wi_start = 1, wi_end = rnd64 (13 / 10)\<rparr>]])
      = Inr [\<lparr>tm_word = ''a'', tm_start = 0, tm_end = rnd64 (3 / 10), tm_estimated = None,
               tm_line = Some 0\<rparr>,
             \<lparr>tm_word = ''b'', tm_start = rnd64 (13 / 20), tm_end = rnd64 (17 / 20),
               tm_estimated = Some True, tm_line = Some 0\<rparr>,
             \<lparr>tm_word = ''c'', tm_start = 1, tm_end = rnd64 (13 / 10), tm_estimated = None,
               tm_line = Some 0\<rparr>]
   \<and> rnd64 (13 / 20) < rnd64 (17 / 20)
   \<and> rnd64 (3 / 10) \<le> rnd64 (13 / 20)"
proof -
  let ?T = "transcribed_of [[\<lparr>wi_word = ''a'', wi_start = 0, wi_end = rnd64 (3 / 10)\<rparr>,
                       \<lparr>wi_word = ''c'', wi_start = 1, wi_end = rnd64 (13 / 10)\<rparr>]]"
  let ?L = "get_lyrics_words [''a b c'']"
  let ?TS = "[\<lparr>tm_word = ''a'', tm_start = 0, tm_end = rnd64 (3 / 10), tm_estimated = None,
               tm_line = Some 0\<rparr>,
             \<lparr>tm_word = ''b'', tm_start = rnd64 (13 / 20), tm_end = rnd64 (17 / 20),
               tm_estimated = Some True, tm_line = Some 0\<rparr>,
             \<lparr>tm_word = ''c'', tm_start = 1, tm_end = rnd64 (13 / 10), tm_estimated = None,
               tm_line = Some 0\<rparr>]"
  let ?m = "lyrics_to_trans (map lw_clean ?L) (map tw_clean ?T)"
  have v: "list_all valid_word ?T" by code_simp
  have al: "align_lyrics ?L ?T = Inr ?TS" by code_simp
  have m0: "?m 0 = Some 0" by code_simp
  have m1: "?m 1 = None" by code_simp
  have m2: "?m 2 = Some 1" by code_simp
  have len: "2 < length ?L" by code_simp
  have ov: "tw_end (?T ! 0) \<le> tw_start (?T ! 1)" by code_simp
  note ord = estimated_interval_order[OF v refl al]
  from ord have "\<forall>i<length ?TS. tm_estimated (?TS ! i) = Some True \<longrightarrow>
      tm_start (?TS ! i) < tm_end (?TS ! i)" by blast
  from this[rule_format, of 1] have 1: "rnd64 (13 / 20) < rnd64 (17 / 20)" by simp
  have btw: "\<forall>q. (0::nat) < q \<and> q < 2 \<longrightarrow> ?m q = None"
  proof (intro allI impI)
    fix q :: nat assume "0 < q \<and> q < 2"
    then have "q = 1" by simp
    with m1 show "?m q = None" by simp
  qed
  from ord have "\<forall>p i n tp tn.
             p < i \<and> i < n \<and> n < length ?L \<and> ?m p = Some tp \<and> ?m n = Some tn
             \<and> (\<forall>q. p < q \<and> q < n \<longrightarrow> ?m q = None)
             \<and> tw_end (?T ! tp) \<le> tw_start (?T ! tn)
             \<longrightarrow> tm_end (?TS ! p) \<le> tm_start (?TS ! i)" by blast
  from this[rule_format, of 0 1 2 0 1] m0 m2 len btw ov
  have "tm_end (?TS ! 0) \<le> tm_start (?TS ! 1)" by simp
  then have 2: "rnd64 (3 / 10) \<le> rnd64 (13 / 20)" by simp
  from v al 1 2 show ?thesis by blast
qed

text \<open>
  Claim C5 as stated (the estimate is never earlier than the previous matched word's end
  when a following matched word exists) fails when the two transcribed words overlap:
  with \<open>a\<close> at \<open>[0.0, 2.0]\<close> and \<open>c\<close> at \<open>[1.0, 3.0]\<close>, the unmatched \<open>b\<close> starts at
  \<open>1.5\<close>, before the end \<open>2.0\<close> of \<open>a\<close>.
\<close>

theorem estimate_before_previous_end:
  "\<exists>timings.
     align_lyrics (get_lyrics_words [''a b c''])
       (transcribed_of [[\<lparr>wi_word = ''a'', wi_start = 0, wi_end = 2\<rparr>,
                         \<lparr>wi_word = ''c'', wi_start = 1, wi_end = 3\<rparr>]]) = Inr timings
     \<and> lyrics_to_trans [''a'', ''b'', ''c''] [''a'', ''c''] 0 = Some 0
     \<and> lyrics_to_trans [''a'', ''b'', ''c''] [''a'', ''c''] 1 = None
     \<and> lyrics_to_trans [''a'', ''b'', ''c''] [''a'', ''c''] 2 = Some 1
     \<and> tm_estimated (timings ! 1) = Some True
     \<and> tm_end (timings ! 0) = 2
     \<and> tm_start (timings ! 1) = 3 / 2
     \<and> tm_start (timings ! 1) < tm_end (timings ! 0)
     \<and> fdiv (fadd 2 1) 2 < 2"
proof -
  have al: "align_lyrics (get_lyrics_words [''a b c''])
       (transcribed_of [[\<lparr>wi_word = ''a'', wi_start = 0, wi_end = 2\<rparr>,
                         \<lparr>wi_word = ''c'', wi_start = 1, wi_end = 3\<rparr>]])
     = Inr [\<lparr>tm_word = ''a'', tm_start = 0, tm_end = 2, tm_estimated = None, tm_line = Some 0\<rparr>,
            \<lparr>tm_word = ''b'', tm_start = 3 / 2, tm_end = rnd64 (17 / 10),
              tm_estimated = Some True, tm_line = Some 0\<rparr>,
            \<lparr>tm_word = ''c'', tm_start = 1, tm_end = 3, tm_estimated = None, tm_line = Some 0\<rparr>]"
    by code_simp
  have m0: "lyrics_to_trans [''a'', ''b'', ''c''] [''a'', ''c''] 0 = Some 0" by code_simp
  have m1: "lyrics_to_trans [''a'', ''b'', ''c''] [''a'', ''c''] 1 = None" by code_simp
  have m2: "lyrics_to_trans [''a'', ''b'', ''c''] [''a'', ''c''] 2 = Some 1" by code_simp
  have mid: "fdiv (fadd 2 1) 2 < 2" by code_simp
  show ?thesis
    unfolding al using m0 m1 m2 mid by simp
qed

end
